theory Spec2Isabelle
  imports Main
begin

section \<open>Numbers and arrays of the source language\<close>

text \<open>
  The engine of \<^verbatim>\<open>board.js\<close> works on JavaScript strings, arrays of strings and numbers.
  The only numbers it produces are integers (\<^verbatim>\<open>100 - n\<close>, \<^verbatim>\<open>-100 + n\<close>, \<^verbatim>\<open>0 + n\<close>)
  and the two infinities that \<^verbatim>\<open>Math.max()\<close> and \<^verbatim>\<open>Math.min()\<close> return when they are
  applied to no argument. Reading an array outside its bounds yields \<^verbatim>\<open>undefined\<close>, which
  is \<open>None\<close> here.
\<close>

datatype jsnum = NegInfinity | Num int | Infinity

instantiation jsnum :: linorder
begin

fun less_eq_jsnum :: "jsnum \<Rightarrow> jsnum \<Rightarrow> bool" where
  "less_eq_jsnum NegInfinity _ = True"
| "less_eq_jsnum (Num a) NegInfinity = False"
| "less_eq_jsnum (Num a) (Num b) = (a \<le> b)"
| "less_eq_jsnum (Num a) Infinity = True"
| "less_eq_jsnum Infinity Infinity = True"
| "less_eq_jsnum Infinity _ = False"

definition less_jsnum :: "jsnum \<Rightarrow> jsnum \<Rightarrow> bool" where
  "less_jsnum a b = (a \<le> b \<and> \<not> b \<le> a)"

instance
proof
  fix x y z :: jsnum
  show "(x < y) = (x \<le> y \<and> \<not> y \<le> x)" by (simp add: less_jsnum_def)
  show "x \<le> x" by (cases x) simp_all
  show "x \<le> y \<Longrightarrow> y \<le> z \<Longrightarrow> x \<le> z" by (cases x; cases y; cases z) simp_all
  show "x \<le> y \<Longrightarrow> y \<le> x \<Longrightarrow> x = y" by (cases x; cases y) simp_all
  show "x \<le> y \<or> y \<le> x" by (cases x; cases y) auto
qed

end

text \<open>
  \<^verbatim>\<open>Math.max(...xs)\<close> and \<^verbatim>\<open>Math.min(...xs)\<close>: the largest and the smallest argument,
  \<open>-Infinity\<close> and \<open>Infinity\<close> when there is none.
\<close>

definition Math_max :: "jsnum list \<Rightarrow> jsnum" where
  "Math_max xs = fold max xs NegInfinity"

definition Math_min :: "jsnum list \<Rightarrow> jsnum" where
  "Math_min xs = fold min xs Infinity"

text \<open>
  The truth value of the result of a property read: \<^verbatim>\<open>undefined\<close> and \<open>0\<close> are falsy,
  every other number (the infinities too) is truthy.
\<close>

fun truthy :: "jsnum option \<Rightarrow> bool" where
  "truthy None = False"
| "truthy (Some v) = (v \<noteq> Num 0)"

text \<open>
  \<^verbatim>\<open>Array.prototype.join\<close> on an array of strings. A row of the grid is itself an array, and
  joining an array of rows turns each row into a string with \<^verbatim>\<open>row.join(",")\<close> first.
\<close>

fun join :: "string \<Rightarrow> string list \<Rightarrow> string" where
  "join sep [] = []"
| "join sep [x] = x"
| "join sep (x # y # ys) = x @ sep @ join sep (y # ys)"

text \<open>\<^verbatim>\<open>xs[i]\<close>: the element, or \<^verbatim>\<open>undefined\<close> outside the array.\<close>

definition at :: "'a list \<Rightarrow> nat \<Rightarrow> 'a option" where
  "at xs i = (if i < length xs then Some (xs ! i) else None)"

section \<open>The class \<^verbatim>\<open>Board\<close>\<close>

text \<open>
  A board holds the grid \<^verbatim>\<open>state\<close> (an array of rows of strings), the computer's symbol and
  the turn flag. The constructor derives \<^verbatim>\<open>boardSize\<close> and \<^verbatim>\<open>humanSymbol\<close> from these
  and nothing assigns them afterwards, so they are functions of the record. The fourth
  constructor argument, the cache, is one object shared by reference between all boards
  of a session; it is the state that \<open>getScore\<close> threads explicitly. It is a plain
  object used as a dictionary from the joined grid to a score, and is modelled as a map:
  the keys of a grid of \<^verbatim>\<open>"X"\<close>, \<^verbatim>\<open>"O"\<close> and \<^verbatim>\<open>"E"\<close> are never names of inherited
  properties of an object.
\<close>

record board =
  state :: "string list list"
  compSymbol :: string
  isCompTurn :: bool

type_synonym cache = "string \<rightharpoonup> jsnum"

definition boardSize :: "board \<Rightarrow> nat" where
  "boardSize b = length (state b)"

definition humanSymbol :: "board \<Rightarrow> string" where
  "humanSymbol b = (if compSymbol b = ''X'' then ''O'' else ''X'')"

definition getRows :: "board \<Rightarrow> string option list list" where
  "getRows b = map (map Some) (state b)"

definition getCols :: "board \<Rightarrow> string option list list" where
  "getCols b = map (\<lambda>x. map (\<lambda>row. at row x) (state b)) [0..<boardSize b]"

definition getDiags :: "board \<Rightarrow> string option list list" where
  "getDiags b =
     [map (\<lambda>(i, row). at row i) (enumerate 0 (state b)),
      map (\<lambda>(i, row). at row (boardSize b - i - 1)) (enumerate 0 (state b))]"

text \<open>\<^verbatim>\<open>line[0]\<close>, which is \<^verbatim>\<open>undefined\<close> for the empty line.\<close>

definition line0 :: "string option list \<Rightarrow> string option" where
  "line0 line = (case line of [] \<Rightarrow> None | square # _ \<Rightarrow> square)"

definition getLineWinner :: "string option list \<Rightarrow> string option" where
  "getLineWinner line =
     (if Some ''E'' \<in> set line then Some ''E''
      else if list_all (\<lambda>square. square = line0 line) line then line0 line
      else Some ''D'')"

text \<open>
  The loop of \<^verbatim>\<open>getWinner\<close> over the lines, with its early return and its flag
  \<^verbatim>\<open>isDraw\<close>.
\<close>

fun scanLines :: "string option list list \<Rightarrow> bool \<Rightarrow> string" where
  "scanLines [] isDraw = (if isDraw then ''D'' else ''L'')"
| "scanLines (line # lines) isDraw =
     (let winner = getLineWinner line in
      if winner = Some ''X'' \<or> winner = Some ''O'' then the winner
      else scanLines lines (if winner = Some ''E'' then False else isDraw))"

definition lines :: "board \<Rightarrow> string option list list" where
  "lines b = getRows b @ getCols b @ getDiags b"

definition getWinner :: "board \<Rightarrow> string" where
  "getWinner b = scanLines (lines b) True"

text \<open>
  \<^verbatim>\<open>clone\<close> copies every row into a new array. On values a copy is the value itself; the
  model on a store further down shows that the copy is what keeps the parent's grid
  apart from the writes of \<^verbatim>\<open>getChildBoards\<close>.
\<close>

definition clone :: "board \<Rightarrow> board" where
  "clone b = \<lparr>state = map (\<lambda>row. row) (state b), compSymbol = compSymbol b,
              isCompTurn = isCompTurn b\<rparr>"

text \<open>
  The two assignments \<^verbatim>\<open>newBoard.state[y][x] = playerSymbol\<close> and
  \<^verbatim>\<open>newBoard.isCompTurn = !this.isCompTurn\<close> on a fresh clone. They are only reached when
  \<^verbatim>\<open>this.state[y][x] === "E"\<close>, so the write is inside the row.
\<close>

definition place :: "board \<Rightarrow> nat \<Rightarrow> nat \<Rightarrow> string \<Rightarrow> bool \<Rightarrow> board" where
  "place newBoard y x playerSymbol turn =
     newBoard\<lparr>state := (state newBoard)[y := (state newBoard ! y)[x := playerSymbol]],
              isCompTurn := turn\<rparr>"

definition getChildBoards :: "board \<Rightarrow> board list" where
  "getChildBoards b =
     (let playerSymbol = (if isCompTurn b then compSymbol b else humanSymbol b) in
      concat (map (\<lambda>y.
        concat (map (\<lambda>x.
          if at (state b ! y) x = Some ''E''
          then [place (clone b) y x playerSymbol (\<not> isCompTurn b)]
          else [])
        [0..<boardSize b]))
      [0..<boardSize b]))"

section \<open>Scores\<close>

text \<open>
  \<^verbatim>\<open>xs.map(board => board.getScore())\<close> calls \<^verbatim>\<open>getScore\<close> on the elements from left to
  right; every call may write the shared cache, which the next call reads.
\<close>

fun mapState :: "('a \<Rightarrow> 's \<Rightarrow> 'b \<times> 's) \<Rightarrow> 'a list \<Rightarrow> 's \<Rightarrow> 'b list \<times> 's" where
  "mapState f [] s = ([], s)"
| "mapState f (x # xs) s =
     (case f x s of (y, s1) \<Rightarrow> (case mapState f xs s1 of (ys, s2) \<Rightarrow> (y # ys, s2)))"

lemma mapState_cong [fundef_cong]:
  "xs = ys \<Longrightarrow> s = t \<Longrightarrow> (\<And>x u. x \<in> set ys \<Longrightarrow> f x u = g x u)
   \<Longrightarrow> mapState f xs s = mapState g ys t"
  by (induction ys arbitrary: xs s t) (auto split: prod.splits)

definition stringState :: "board \<Rightarrow> string" where
  "stringState b = join '';'' (map (join '','') (state b))"


subsection \<open>The children of a board, and why the recursion ends\<close>

text \<open>
  The nested loops of \<^verbatim>\<open>getChildBoards\<close> visit the coordinates \<open>(y, x)\<close> in row-major
  order and keep those holding \<^verbatim>\<open>"E"\<close>.
\<close>

definition emptyCells :: "board \<Rightarrow> (nat \<times> nat) list" where
  "emptyCells b =
     filter (\<lambda>(y, x). at (state b ! y) x = Some ''E'')
       (List.product [0..<boardSize b] [0..<boardSize b])"

definition playerSymbol :: "board \<Rightarrow> string" where
  "playerSymbol b = (if isCompTurn b then compSymbol b else humanSymbol b)"

lemma concat_if_singleton:
  "concat (map (\<lambda>x. if P x then [f x] else []) xs) = map f (filter P xs)"
  by (induction xs) auto

lemma nested_loop_product:
  "concat (map (\<lambda>y. concat (map (\<lambda>x. if P y x then [f y x] else []) xs)) ys)
   = map (\<lambda>(y, x). f y x) (filter (\<lambda>(y, x). P y x) (List.product ys xs))"
  by (induction ys) (auto simp: concat_if_singleton filter_map comp_def)

lemma clone_id: "clone b = b"
  by (simp add: clone_def)

lemma getChildBoards_emptyCells:
  "getChildBoards b =
     map (\<lambda>(y, x). place b y x (playerSymbol b) (\<not> isCompTurn b)) (emptyCells b)"
  unfolding getChildBoards_def Let_def emptyCells_def playerSymbol_def clone_id
  by (rule nested_loop_product)

lemma emptyCells_in_range:
  assumes "(y, x) \<in> set (emptyCells b)"
  shows "y < boardSize b" "x < boardSize b" "x < length (state b ! y)" "state b ! y ! x = ''E''"
  using assms by (auto simp: emptyCells_def at_def split: if_splits)

lemma distinct_emptyCells: "distinct (emptyCells b)"
  by (simp add: emptyCells_def distinct_product)

lemma boardSize_place: "boardSize (place b y x p t) = boardSize b"
  by (simp add: boardSize_def place_def)

lemma at_place:
  assumes "y0 < boardSize b" "x0 < length (state b ! y0)" "y < boardSize b"
  shows "at (state (place b y0 x0 p t) ! y) x
         = (if y = y0 \<and> x = x0 then Some p else at (state b ! y) x)"
  using assms by (auto simp: place_def at_def boardSize_def nth_list_update)

lemma emptyCells_place:
  assumes "(y0, x0) \<in> set (emptyCells b)"
  shows "emptyCells (place b y0 x0 p t)
         = filter (\<lambda>q. q \<noteq> (y0, x0) \<or> p = ''E'') (emptyCells b)"
proof -
  have r: "y0 < boardSize b" "x0 < length (state b ! y0)"
    using emptyCells_in_range[OF assms] by auto
  have e: "at (state b ! y0) x0 = Some ''E''"
    using assms by (simp add: emptyCells_def)
  show ?thesis
    unfolding emptyCells_def boardSize_place filter_filter
    by (rule filter_cong) (auto simp: at_place[OF r] e split: if_splits)
qed

definition emptyCount :: "board \<Rightarrow> nat" where
  "emptyCount b = length (getChildBoards b)"

lemma emptyCount_emptyCells: "emptyCount b = length (emptyCells b)"
  by (simp add: emptyCount_def getChildBoards_emptyCells)

lemma emptyCount_place_less:
  assumes "(y0, x0) \<in> set (emptyCells b)" "p \<noteq> ''E''"
  shows "emptyCount (place b y0 x0 p t) < emptyCount b"
  unfolding emptyCount_emptyCells emptyCells_place[OF assms(1)]
  using assms by (auto intro: length_filter_less)

lemma emptyCount_place_same:
  assumes "(y0, x0) \<in> set (emptyCells b)"
  shows "emptyCount (place b y0 x0 ''E'' t) = emptyCount b"
  unfolding emptyCount_emptyCells emptyCells_place[OF assms] by simp

text \<open>
  A child has one empty cell less than its parent, unless the symbol placed is itself
  \<^verbatim>\<open>"E"\<close>; only the computer's symbol can be, the human's symbol being \<^verbatim>\<open>"X"\<close> or
  \<^verbatim>\<open>"O"\<close>, and then the next ply fills a cell. So the search ends on every board.
\<close>

definition depth :: "board \<Rightarrow> nat" where
  "depth b = (if compSymbol b = ''E''
              then 2 * emptyCount b + (if isCompTurn b then 1 else 0)
              else emptyCount b)"

lemma compSymbol_place [simp]: "compSymbol (place b y x p t) = compSymbol b"
  and isCompTurn_place [simp]: "isCompTurn (place b y x p t) = t"
  by (simp_all add: place_def)

lemma depth_child:
  assumes "ch \<in> set (getChildBoards b)"
  shows "depth ch < depth b"
proof -
  from assms obtain y x where yx: "(y, x) \<in> set (emptyCells b)"
    and ch: "ch = place b y x (playerSymbol b) (\<not> isCompTurn b)"
    by (auto simp: getChildBoards_emptyCells)
  show ?thesis
  proof (cases "playerSymbol b = ''E''")
    case True
    then have "compSymbol b = ''E''" "isCompTurn b"
      by (auto simp: playerSymbol_def humanSymbol_def split: if_splits)
    then show ?thesis
      using emptyCount_place_same[OF yx] True by (simp add: depth_def ch)
  next
    case False
    from emptyCount_place_less[OF yx False, of "\<not> isCompTurn b"]
    show ?thesis by (auto simp: depth_def ch)
  qed
qed

subsection \<open>\<^verbatim>\<open>getScore\<close> and \<^verbatim>\<open>forceGetScore\<close>\<close>

function getScore :: "board \<Rightarrow> cache \<Rightarrow> jsnum \<times> cache"
  and forceGetScore :: "board \<Rightarrow> cache \<Rightarrow> jsnum \<times> cache" where
  "getScore b c =
     (if truthy (c (stringState b)) then (the (c (stringState b)), c)
      else (case forceGetScore b c of (score, c1) \<Rightarrow> (score, c1(stringState b \<mapsto> score))))"
| "forceGetScore b c =
     (if getWinner b = compSymbol b then (Num (100 - int (length (getChildBoards b))), c)
      else if getWinner b = humanSymbol b then (Num (- 100 + int (length (getChildBoards b))), c)
      else if getWinner b = ''D'' then (Num (0 + int (length (getChildBoards b))), c)
      else if isCompTurn b
        then (case mapState getScore (getChildBoards b) c of (scores, c1) \<Rightarrow> (Math_max scores, c1))
        else (case mapState getScore (getChildBoards b) c of (scores, c1) \<Rightarrow> (Math_min scores, c1)))"
  by pat_completeness auto


termination
  by (relation "measure (\<lambda>s. case s of Inl (b, c) \<Rightarrow> 2 * depth b + 1
                                   | Inr (b, c) \<Rightarrow> 2 * depth b)")
     (auto dest: depth_child)



declare getScore.simps [simp del] forceGetScore.simps [simp del]

subsection \<open>\<^verbatim>\<open>getNextBestBoardState\<close>\<close>

text \<open>
  \<^verbatim>\<open>xs.find(p)\<close> returns the first element on which the callback is true, or
  \<^verbatim>\<open>undefined\<close>. The callback here calls \<^verbatim>\<open>getScore\<close> on the child and then on the parent,
  so it writes the cache too.
\<close>

fun findState :: "('a \<Rightarrow> 's \<Rightarrow> bool \<times> 's) \<Rightarrow> 'a list \<Rightarrow> 's \<Rightarrow> 'a option \<times> 's" where
  "findState p [] s = (None, s)"
| "findState p (x # xs) s =
     (case p x s of (found, s1) \<Rightarrow> if found then (Some x, s1) else findState p xs s1)"

definition sameScore :: "board \<Rightarrow> board \<Rightarrow> cache \<Rightarrow> bool \<times> cache" where
  "sameScore this board c =
     (case getScore board c of (s1, c1) \<Rightarrow>
      case getScore this c1 of (s2, c2) \<Rightarrow> (s1 = s2, c2))"

definition getNextBestBoardState :: "board \<Rightarrow> cache \<Rightarrow> board option \<times> cache" where
  "getNextBestBoardState b c =
     (if \<not> isCompTurn b then (None, c)
      else if getWinner b = ''L'' then findState (sameScore b) (getChildBoards b) c
      else (None, c))"


section \<open>Objects, arrays and the shared cache\<close>

text \<open>
  The functions above work on values. In the source a board is an object: its \<^verbatim>\<open>state\<close> is a
  reference to an array of references to row arrays, its \<^verbatim>\<open>cache\<close> a reference to the shared
  dictionary, and \<^verbatim>\<open>getChildBoards\<close> writes into the objects that \<^verbatim>\<open>clone\<close> returns. Whether
  a write reaches the board it was cloned from depends on what \<^verbatim>\<open>clone\<close> copies, so the
  operations are modelled once more on an explicit store. References are addresses;
  \<open>nxt\<close> is the first address not yet used, and every \<^verbatim>\<open>new\<close> object or array takes it.
\<close>

type_synonym ref = nat

record boardObj =
  o_state :: ref
  o_compSymbol :: string
  o_isCompTurn :: bool
  o_cache :: ref
  o_boardSize :: nat
  o_humanSymbol :: string

record heap =
  boards :: "ref \<rightharpoonup> boardObj"
  grids :: "ref \<rightharpoonup> ref list"
  rowsOf :: "ref \<rightharpoonup> string list"
  caches :: "ref \<rightharpoonup> cache"
  nxt :: ref

text \<open>
  Allocation of a row array, of an array of rows and of a board. \<open>newBoard\<close> is the
  constructor: it stores the four arguments and derives \<^verbatim>\<open>boardSize\<close> and \<^verbatim>\<open>humanSymbol\<close>.
\<close>

definition newRow :: "string list \<Rightarrow> heap \<Rightarrow> ref \<times> heap" where
  "newRow cells h = (nxt h, h\<lparr>rowsOf := (rowsOf h)(nxt h \<mapsto> cells), nxt := Suc (nxt h)\<rparr>)"

definition newGrid :: "ref list \<Rightarrow> heap \<Rightarrow> ref \<times> heap" where
  "newGrid rs h = (nxt h, h\<lparr>grids := (grids h)(nxt h \<mapsto> rs), nxt := Suc (nxt h)\<rparr>)"

definition newBoard :: "ref \<Rightarrow> string \<Rightarrow> bool \<Rightarrow> ref \<Rightarrow> heap \<Rightarrow> ref \<times> heap" where
  "newBoard g cs t ca h =
     (nxt h,
      h\<lparr>boards := (boards h)(nxt h \<mapsto>
           \<lparr>o_state = g, o_compSymbol = cs, o_isCompTurn = t,
            o_cache = ca, o_boardSize = length (the (grids h g)),
            o_humanSymbol = (if cs = ''X'' then ''O'' else ''X'')\<rparr>),
        nxt := Suc (nxt h)\<rparr>)"

text \<open>
  Reading the store: the object behind a reference, the grid it points to (as the value
  used by the functions of the first sections), and its cache.
\<close>

definition this :: "heap \<Rightarrow> ref \<Rightarrow> boardObj" where
  "this h p = the (boards h p)"

definition gridOf :: "heap \<Rightarrow> ref \<Rightarrow> string list list" where
  "gridOf h p = map (\<lambda>r. the (rowsOf h r)) (the (grids h (o_state (this h p))))"

definition absBoard :: "heap \<Rightarrow> ref \<Rightarrow> board" where
  "absBoard h p = \<lparr>state = gridOf h p, compSymbol = o_compSymbol (this h p),
                   isCompTurn = o_isCompTurn (this h p)\<rparr>"

definition cacheOf :: "heap \<Rightarrow> ref \<Rightarrow> cache" where
  "cacheOf h p = the (caches h (o_cache (this h p)))"

text \<open>
  \<^verbatim>\<open>clone\<close>: \<^verbatim>\<open>this.state.map(row => [...row])\<close> allocates a copy of every row and an array
  holding the copies; the new board gets that array, the two scalar fields, and the very
  same cache reference.
\<close>

definition copyRow :: "ref \<Rightarrow> heap \<Rightarrow> ref \<times> heap" where
  "copyRow row h = newRow (the (rowsOf h row)) h"

definition h_clone :: "ref \<Rightarrow> heap \<Rightarrow> ref \<times> heap" where
  "h_clone p h =
     (case mapState copyRow (the (grids h (o_state (this h p)))) h of
        (newRows, h1) \<Rightarrow>
          case newGrid newRows h1 of
            (newState, h2) \<Rightarrow>
              newBoard newState (o_compSymbol (this h2 p)) (o_isCompTurn (this h2 p))
                (o_cache (this h2 p)) h2)"

text \<open>
  The two assignments of \<^verbatim>\<open>getChildBoards\<close>, \<^verbatim>\<open>newBoard.state[y][x] = playerSymbol\<close> and
  \<^verbatim>\<open>newBoard.isCompTurn = !this.isCompTurn\<close>, and one iteration of its inner loop. The
  loop reads \<^verbatim>\<open>this.state[y][x]\<close> from the store as it is at that iteration.
\<close>

definition setCell :: "ref \<Rightarrow> nat \<Rightarrow> nat \<Rightarrow> string \<Rightarrow> heap \<Rightarrow> heap" where
  "setCell p y x v h =
     (let row = the (grids h (o_state (this h p))) ! y
      in h\<lparr>rowsOf := (rowsOf h)(row \<mapsto> (the (rowsOf h row))[x := v])\<rparr>)"

definition setTurn :: "ref \<Rightarrow> bool \<Rightarrow> heap \<Rightarrow> heap" where
  "setTurn p t h = h\<lparr>boards := (boards h)(p \<mapsto> (this h p)\<lparr>o_isCompTurn := t\<rparr>)\<rparr>"

definition visit :: "ref \<Rightarrow> string \<Rightarrow> nat \<times> nat \<Rightarrow> ref list \<times> heap \<Rightarrow> ref list \<times> heap" where
  "visit p mark yx s =
     (case yx of (y, x) \<Rightarrow> case s of (childBoards, h) \<Rightarrow>
        if at (gridOf h p ! y) x = Some ''E''
        then (case h_clone p h of (nb, h1) \<Rightarrow>
                (childBoards @ [nb],
                 setTurn nb (\<not> o_isCompTurn (this h1 p)) (setCell nb y x mark h1)))
        else (childBoards, h))"

definition h_getChildBoards :: "ref \<Rightarrow> heap \<Rightarrow> ref list \<times> heap" where
  "h_getChildBoards p h =
     (let mark = (if o_isCompTurn (this h p) then o_compSymbol (this h p)
                 else o_humanSymbol (this h p))
      in fold (visit p mark)
           (List.product [0..<o_boardSize (this h p)] [0..<o_boardSize (this h p)]) ([], h))"

text \<open>
  \<^verbatim>\<open>getWinner\<close>, \<^verbatim>\<open>getRows\<close>, \<^verbatim>\<open>getCols\<close>, \<^verbatim>\<open>getDiags\<close> and \<^verbatim>\<open>getLineWinner\<close> contain no
  assignment to a field or to an element of an array of the board: they read the store
  and return a value.
\<close>

definition h_getWinner :: "ref \<Rightarrow> heap \<Rightarrow> string" where
  "h_getWinner p h = getWinner (absBoard h p)"

text \<open>
  \<^verbatim>\<open>getScore\<close> and \<^verbatim>\<open>forceGetScore\<close> on the store. The recursion goes through boards that
  are allocated on the way, so it is bounded by fuel: \<open>None\<close> means that the fuel ran
  out. The assignment \<^verbatim>\<open>this.cache[stringState] = score\<close> is the only write to an object that
  existed before the call.
\<close>

fun mapStateOpt :: "('a \<Rightarrow> 's \<Rightarrow> ('b \<times> 's) option) \<Rightarrow> 'a list \<Rightarrow> 's \<Rightarrow> ('b list \<times> 's) option" where
  "mapStateOpt f [] s = Some ([], s)"
| "mapStateOpt f (x # xs) s =
     (case f x s of None \<Rightarrow> None
      | Some (y, s1) \<Rightarrow>
          (case mapStateOpt f xs s1 of None \<Rightarrow> None | Some (ys, s2) \<Rightarrow> Some (y # ys, s2)))"

definition setCache :: "ref \<Rightarrow> string \<Rightarrow> jsnum \<Rightarrow> heap \<Rightarrow> heap" where
  "setCache p key score h =
     h\<lparr>caches := (caches h)(o_cache (this h p) \<mapsto> (cacheOf h p)(key \<mapsto> score))\<rparr>"

definition h_forceGetScore ::
  "(ref \<Rightarrow> heap \<Rightarrow> (jsnum \<times> heap) option) \<Rightarrow> ref \<Rightarrow> heap \<Rightarrow> (jsnum \<times> heap) option" where
  "h_forceGetScore getScoreOf p h =
     (if h_getWinner p h = o_compSymbol (this h p)
      then (case h_getChildBoards p h of (cs, h1) \<Rightarrow> Some (Num (100 - int (length cs)), h1))
      else if h_getWinner p h = o_humanSymbol (this h p)
      then (case h_getChildBoards p h of (cs, h1) \<Rightarrow> Some (Num (- 100 + int (length cs)), h1))
      else if h_getWinner p h = ''D''
      then (case h_getChildBoards p h of (cs, h1) \<Rightarrow> Some (Num (0 + int (length cs)), h1))
      else if o_isCompTurn (this h p)
      then (case h_getChildBoards p h of (cs, h1) \<Rightarrow>
              case mapStateOpt getScoreOf cs h1 of None \<Rightarrow> None
              | Some (scores, h2) \<Rightarrow> Some (Math_max scores, h2))
      else (case h_getChildBoards p h of (cs, h1) \<Rightarrow>
              case mapStateOpt getScoreOf cs h1 of None \<Rightarrow> None
              | Some (scores, h2) \<Rightarrow> Some (Math_min scores, h2)))"

primrec h_getScore :: "nat \<Rightarrow> ref \<Rightarrow> heap \<Rightarrow> (jsnum \<times> heap) option" where
  "h_getScore 0 = (\<lambda>p h. None)"
| "h_getScore (Suc fuel) = (\<lambda>p h.
     let key = stringState (absBoard h p) in
     if truthy (cacheOf h p key) then Some (the (cacheOf h p key), h)
     else (case h_forceGetScore (h_getScore fuel) p h of None \<Rightarrow> None
           | Some (score, h1) \<Rightarrow> Some (score, setCache p key score h1)))"


text \<open>
  \<^verbatim>\<open>getNextBestBoardState\<close> on the store, with the same fuel for every call of
  \<^verbatim>\<open>getScore\<close> it makes.
\<close>

fun findStateOpt :: "('a \<Rightarrow> 's \<Rightarrow> (bool \<times> 's) option) \<Rightarrow> 'a list \<Rightarrow> 's \<Rightarrow> ('a option \<times> 's) option" where
  "findStateOpt p [] s = Some (None, s)"
| "findStateOpt p (x # xs) s =
     (case p x s of None \<Rightarrow> None
      | Some (found, s1) \<Rightarrow> if found then Some (Some x, s1) else findStateOpt p xs s1)"

definition h_sameScore :: "nat \<Rightarrow> ref \<Rightarrow> ref \<Rightarrow> heap \<Rightarrow> (bool \<times> heap) option" where
  "h_sameScore fuel p k h =
     (case h_getScore fuel k h of None \<Rightarrow> None
      | Some (s1, h1) \<Rightarrow>
          (case h_getScore fuel p h1 of None \<Rightarrow> None
           | Some (s2, h2) \<Rightarrow> Some (s1 = s2, h2)))"

definition h_getNextBestBoardState :: "nat \<Rightarrow> ref \<Rightarrow> heap \<Rightarrow> (ref option \<times> heap) option" where
  "h_getNextBestBoardState fuel p h =
     (if \<not> o_isCompTurn (this h p) then Some (None, h)
      else if h_getWinner p h = ''L''
      then (case h_getChildBoards p h of (kids, h1) \<Rightarrow> findStateOpt (h_sameScore fuel p) kids h1)
      else Some (None, h))"


section \<open>Outcome of a board\<close>

subsection \<open>Lines and winners\<close>

text \<open>
  A line is won by a mark when the marks on it are exactly that one mark: the line is not
  empty and every square holds the mark.
\<close>

definition wonBy :: "string \<Rightarrow> string option list \<Rightarrow> bool" where
  "wonBy m line = (set line = {Some m})"

definition winningLine :: "string option list \<Rightarrow> bool" where
  "winningLine line = (wonBy ''X'' line \<or> wonBy ''O'' line)"

lemma line0_in_set: "l \<noteq> [] \<Longrightarrow> line0 l \<in> set l"
  by (cases l) (simp_all add: line0_def)

lemma getLineWinner_mark:
  assumes "m = ''X'' \<or> m = ''O''"
  shows "(getLineWinner l = Some m) = wonBy m l"
proof (cases l)
  case Nil
  then show ?thesis by (simp add: getLineWinner_def wonBy_def line0_def)
next
  case (Cons sq sqs)
  have l0: "line0 l = sq" by (simp add: Cons line0_def)
  show ?thesis
  proof
    assume g: "getLineWinner l = Some m"
    then have "Some ''E'' \<notin> set l" "list_all (\<lambda>s. s = sq) l" "sq = Some m"
      using assms by (auto simp: getLineWinner_def l0 split: if_splits)
    then show "wonBy m l"
      by (auto simp: wonBy_def list_all_iff Cons)
  next
    assume "wonBy m l"
    then have s: "set l = {Some m}" by (simp add: wonBy_def)
    then have "sq = Some m" "list_all (\<lambda>s. s = Some m) l" "Some ''E'' \<notin> set l"
      using assms by (auto simp: Cons list_all_iff)
    then show "getLineWinner l = Some m"
      by (simp add: getLineWinner_def l0)
  qed
qed

lemma getLineWinner_E: "(getLineWinner l = Some ''E'') = (Some ''E'' \<in> set l)"
proof (cases "Some ''E'' \<in> set l")
  case True
  then show ?thesis by (simp add: getLineWinner_def)
next
  case False
  then have "l \<noteq> [] \<Longrightarrow> line0 l \<noteq> Some ''E''"
    using line0_in_set[of l] by auto
  moreover have "l = [] \<Longrightarrow> line0 l \<noteq> Some ''E''"
    by (simp add: line0_def)
  ultimately show ?thesis using False
    by (auto simp: getLineWinner_def)
qed

lemma scanLines_find:
  "scanLines ls isDraw =
     (case List.find winningLine ls of
        Some line \<Rightarrow> if wonBy ''X'' line then ''X'' else ''O''
      | None \<Rightarrow> if isDraw \<and> (\<forall>line \<in> set ls. Some ''E'' \<notin> set line) then ''D'' else ''L'')"
proof (induction ls arbitrary: isDraw)
  case Nil
  show ?case by simp
next
  case (Cons l ls)
  have x: "(getLineWinner l = Some ''X'') = wonBy ''X'' l"
    and o: "(getLineWinner l = Some ''O'') = wonBy ''O'' l"
    by (simp_all add: getLineWinner_mark)
  have xo: "wonBy ''X'' l \<Longrightarrow> \<not> wonBy ''O'' l"
    by (auto simp: wonBy_def)
  show ?case
  proof (cases "winningLine l")
    case True
    then consider (X) "wonBy ''X'' l" | (O) "wonBy ''O'' l" "\<not> wonBy ''X'' l"
      by (auto simp: winningLine_def)
    then show ?thesis
    proof cases
      case X
      then have "getLineWinner l = Some ''X''" using x by simp
      then show ?thesis using X True by (simp add: Let_def)
    next
      case O
      then have "getLineWinner l = Some ''O''" using o by simp
      then show ?thesis using O True by (simp add: Let_def)
    qed
  next
    case False
    then show ?thesis
      by (auto simp: Let_def x o winningLine_def Cons.IH getLineWinner_E split: option.splits)
  qed
qed


text \<open>
  On every board, square or not, \<^verbatim>\<open>getWinner\<close> is the mark of the first line of the scan
  that is won, and otherwise tells a draw from a game that goes on by the empty squares.
\<close>

lemma getWinner_find:
  "getWinner b =
     (case List.find winningLine (lines b) of
        Some line \<Rightarrow> if wonBy ''X'' line then ''X'' else ''O''
      | None \<Rightarrow> if \<forall>line \<in> set (lines b). Some ''E'' \<notin> set line then ''D'' else ''L'')"
  by (simp add: getWinner_def scanLines_find split: option.splits)

subsection \<open>Exchanging the two marks\<close>

definition swapMark :: "string \<Rightarrow> string" where
  "swapMark s = (if s = ''X'' then ''O'' else if s = ''O'' then ''X'' else s)"

definition swapBoard :: "board \<Rightarrow> board" where
  "swapBoard b = \<lparr>state = map (map swapMark) (state b), compSymbol = swapMark (compSymbol b),
                  isCompTurn = isCompTurn b\<rparr>"

lemma at_map: "at (map f xs) i = map_option f (at xs i)"
  by (simp add: at_def)

lemma swapMark_simps:
  "swapMark ''X'' = ''O''" "swapMark ''O'' = ''X''" "swapMark ''E'' = ''E''"
  "swapMark ''D'' = ''D''" "swapMark ''L'' = ''L''"
  by (simp_all add: swapMark_def)

lemma swapMark_eq_iff: "(swapMark a = swapMark b) = (a = b)"
  by (auto simp: swapMark_def split: if_splits)

lemma swapMark_eq:
  "(swapMark a = ''E'') = (a = ''E'')"
  "(swapMark a = ''X'') = (a = ''O'')"
  "(swapMark a = ''O'') = (a = ''X'')"
  by (auto simp: swapMark_def)

lemma swapOpt_eq_iff: "(map_option swapMark u = map_option swapMark v) = (u = v)"
  by (cases u; cases v) (simp_all add: swapMark_eq_iff)

lemma swapOpt_eq:
  "(map_option swapMark u = Some ''E'') = (u = Some ''E'')"
  "(map_option swapMark u = Some ''X'') = (u = Some ''O'')"
  "(map_option swapMark u = Some ''O'') = (u = Some ''X'')"
  by (cases u; simp add: swapMark_eq)+

lemma lines_swapBoard: "lines (swapBoard b) = map (map (map_option swapMark)) (lines b)"
proof -
  have r: "getRows (swapBoard b) = map (map (map_option swapMark)) (getRows b)"
    by (simp add: getRows_def swapBoard_def)
  have c: "getCols (swapBoard b) = map (map (map_option swapMark)) (getCols b)"
    by (simp add: getCols_def swapBoard_def boardSize_def at_map comp_def)
  have e: "enumerate 0 (map (map swapMark) (state b))
           = map (\<lambda>(i, row). (i, map swapMark row)) (enumerate 0 (state b))"
    by (simp add: enumerate_eq_zip zip_map2 split_def)
  have d: "getDiags (swapBoard b) = map (map (map_option swapMark)) (getDiags b)"
    by (simp add: getDiags_def swapBoard_def boardSize_def e at_map comp_def split_def)
  show ?thesis by (simp add: lines_def r c d)
qed

lemma line0_map: "line0 (map (map_option f) l) = map_option f (line0 l)"
  by (cases l) (simp_all add: line0_def)

lemma getLineWinner_swap:
  "getLineWinner (map (map_option swapMark) l) = map_option swapMark (getLineWinner l)"
proof -
  have e: "(Some ''E'' \<in> set (map (map_option swapMark) l)) = (Some ''E'' \<in> set l)"
  proof -
    have i: "inj (map_option swapMark)"
      by (simp add: inj_def swapOpt_eq_iff)
    have "(map_option swapMark (Some ''E'') \<in> map_option swapMark ` set l) = (Some ''E'' \<in> set l)"
      by (rule inj_image_mem_iff[OF i])
    then show ?thesis by (simp add: swapMark_simps)
  qed
  have a: "list_all (\<lambda>sq. sq = map_option swapMark (line0 l)) (map (map_option swapMark) l)
           = list_all (\<lambda>sq. sq = line0 l) l"
    by (simp add: list_all_iff swapOpt_eq_iff)
  show ?thesis
    unfolding getLineWinner_def e line0_map a
    by (simp add: swapMark_simps)
qed

lemma scanLines_swap:
  "scanLines (map (map (map_option swapMark)) ls) d = swapMark (scanLines ls d)"
proof (induction ls arbitrary: d)
  case Nil
  show ?case by (simp add: swapMark_simps)
next
  case (Cons l ls)
  show ?case
    by (auto simp: getLineWinner_swap Cons.IH Let_def swapOpt_eq swapMark_eq swapMark_simps)
qed


text \<open>
  Claim C8. Exchanging \<^verbatim>\<open>"X"\<close> and \<^verbatim>\<open>"O"\<close> in every square, and in the computer's symbol,
  exchanges the two wins in the result of \<^verbatim>\<open>getWinner\<close> and leaves draw and ongoing as
  they are.
\<close>

theorem getWinner_swap:
  "getWinner (swapBoard b) = swapMark (getWinner b)
   \<and> swapMark ''X'' = ''O'' \<and> swapMark ''O'' = ''X''
   \<and> swapMark ''D'' = ''D'' \<and> swapMark ''L'' = ''L''"
  by (simp add: getWinner_def lines_swapBoard scanLines_swap swapMark_simps)

section \<open>Positions\<close>

text \<open>
  A position of the game is a board whose grid is square, whose squares hold \<^verbatim>\<open>"X"\<close>,
  \<^verbatim>\<open>"O"\<close> or \<^verbatim>\<open>"E"\<close>, and whose computer symbol is \<^verbatim>\<open>"X"\<close> or \<^verbatim>\<open>"O"\<close>, as the comment
  on the constructor requires.
\<close>

definition square :: "board \<Rightarrow> bool" where
  "square b = (\<forall>row \<in> set (state b). length row = boardSize b)"

definition wellFormed :: "board \<Rightarrow> bool" where
  "wellFormed b =
     (square b
      \<and> (\<forall>row \<in> set (state b). \<forall>cell \<in> set row. cell = ''X'' \<or> cell = ''O'' \<or> cell = ''E'')
      \<and> (compSymbol b = ''X'' \<or> compSymbol b = ''O''))"


text \<open>A cache is finite when every score stored in it is an integer.\<close>

definition finiteCache :: "cache \<Rightarrow> bool" where
  "finiteCache c = (\<forall>k v. c k = Some v \<longrightarrow> (\<exists>n. v = Num n))"


subsection \<open>Boards used as examples\<close>

definition b4 :: board where
  "b4 = \<lparr>state = [[''X'', ''E'', ''E''], [''E'', ''X'', ''E''], [''O'', ''O'', ''E'']],
         compSymbol = ''X'', isCompTurn = True\<rparr>"

lemma wellFormed_b4: "wellFormed b4"
  by (simp add: wellFormed_def square_def boardSize_def b4_def)

lemma getWinner_b4: "getWinner b4 = ''L''"
  by code_simp


definition oRow :: board where
  "oRow = \<lparr>state = [[''O'', ''O'', ''O''], [''X'', ''X'', ''E''], [''E'', ''E'', ''E'']],
           compSymbol = ''X'', isCompTurn = True\<rparr>"


definition drawn :: board where
  "drawn = \<lparr>state = [[''X'', ''O'', ''X''], [''X'', ''O'', ''O''], [''O'', ''X'', ''X'']],
            compSymbol = ''X'', isCompTurn = False\<rparr>"


text \<open>Boards won along a row, a column and each diagonal, and one with two won rows.\<close>

definition xRow :: board where
  "xRow = \<lparr>state = [[''X'', ''X'', ''X''], [''O'', ''O'', ''E''], [''E'', ''E'', ''E'']],
           compSymbol = ''X'', isCompTurn = False\<rparr>"

definition xCol :: board where
  "xCol = \<lparr>state = [[''X'', ''O'', ''E''], [''X'', ''O'', ''E''], [''X'', ''E'', ''E'']],
           compSymbol = ''X'', isCompTurn = False\<rparr>"

definition xDiag :: board where
  "xDiag = \<lparr>state = [[''X'', ''O'', ''E''], [''O'', ''X'', ''E''], [''E'', ''E'', ''X'']],
            compSymbol = ''X'', isCompTurn = False\<rparr>"

definition oAnti :: board where
  "oAnti = \<lparr>state = [[''X'', ''X'', ''O''], [''E'', ''O'', ''E''], [''O'', ''E'', ''X'']],
            compSymbol = ''X'', isCompTurn = True\<rparr>"

definition twoRows :: board where
  "twoRows = \<lparr>state = [[''O'', ''O'', ''O''], [''X'', ''X'', ''X''], [''E'', ''E'', ''E'']],
              compSymbol = ''X'', isCompTurn = True\<rparr>"

text \<open>A full board won by the human, the computer playing \<^verbatim>\<open>"X"\<close>.\<close>

definition oFull :: board where
  "oFull = \<lparr>state = [[''O'', ''O'', ''X''], [''X'', ''O'', ''X''], [''O'', ''X'', ''O'']],
            compSymbol = ''X'', isCompTurn = True\<rparr>"


section \<open>The outcome in terms of the squares of the grid\<close>

text \<open>
  The lines of an \<open>N\<close> by \<open>N\<close> grid, written with the coordinates of their squares: row \<open>y\<close>
  holds the squares \<open>(y, 0), \<dots>, (y, N - 1)\<close>, column \<open>x\<close> the squares \<open>(0, x), \<dots>, (N - 1, x)\<close>,
  the diagonal the squares \<open>(i, i)\<close> and the other diagonal the squares \<open>(i, N - i - 1)\<close>.
  On a square grid these are the lines that \<^verbatim>\<open>getRows\<close>, \<^verbatim>\<open>getCols\<close> and \<^verbatim>\<open>getDiags\<close> read, in
  the order in which \<^verbatim>\<open>getWinner\<close> scans them.
\<close>

definition rowLine :: "board \<Rightarrow> nat \<Rightarrow> string option list" where
  "rowLine b y = map (\<lambda>x. Some (state b ! y ! x)) [0..<boardSize b]"

definition colLine :: "board \<Rightarrow> nat \<Rightarrow> string option list" where
  "colLine b x = map (\<lambda>y. Some (state b ! y ! x)) [0..<boardSize b]"

definition diagLine :: "board \<Rightarrow> string option list" where
  "diagLine b = map (\<lambda>i. Some (state b ! i ! i)) [0..<boardSize b]"

definition antiDiagLine :: "board \<Rightarrow> string option list" where
  "antiDiagLine b = map (\<lambda>i. Some (state b ! i ! (boardSize b - i - 1))) [0..<boardSize b]"

definition gridLines :: "board \<Rightarrow> string option list list" where
  "gridLines b =
     map (rowLine b) [0..<boardSize b] @ map (colLine b) [0..<boardSize b]
     @ [diagLine b, antiDiagLine b]"

lemma map_index: "map f xs = map (\<lambda>i. f (xs ! i)) [0..<length xs]"
  by (rule nth_equalityI) simp_all

lemma row_length:
  assumes "square b" "y < boardSize b"
  shows "length (state b ! y) = boardSize b"
  using assms by (simp add: square_def boardSize_def)

lemma getRows_grid:
  assumes "square b"
  shows "getRows b = map (rowLine b) [0..<boardSize b]"
proof -
  have "getRows b = map (\<lambda>y. map Some (state b ! y)) [0..<boardSize b]"
    unfolding getRows_def boardSize_def by (rule map_index)
  also have "\<dots> = map (rowLine b) [0..<boardSize b]"
  proof (rule map_cong[OF refl])
    fix y assume "y \<in> set [0..<boardSize b]"
    then have "length (state b ! y) = boardSize b" using row_length[OF assms] by simp
    then show "map Some (state b ! y) = rowLine b y"
      using map_index[of Some "state b ! y"] by (simp add: rowLine_def)
  qed
  finally show ?thesis .
qed

lemma getCols_grid:
  assumes "square b"
  shows "getCols b = map (colLine b) [0..<boardSize b]"
  unfolding getCols_def
proof (rule map_cong[OF refl])
  fix x assume "x \<in> set [0..<boardSize b]"
  then have x: "x < boardSize b" by simp
  have "map (\<lambda>row. at row x) (state b) = map (\<lambda>y. at (state b ! y) x) [0..<boardSize b]"
    unfolding boardSize_def by (rule map_index)
  also have "\<dots> = colLine b x"
    unfolding colLine_def
  proof (rule map_cong[OF refl])
    fix y assume "y \<in> set [0..<boardSize b]"
    then have "length (state b ! y) = boardSize b" using row_length[OF assms] by simp
    then show "at (state b ! y) x = Some (state b ! y ! x)" using x by (simp add: at_def)
  qed
  finally show "map (\<lambda>row. at row x) (state b) = colLine b x" .
qed

lemma enumerate_index:
  "map (\<lambda>(i, row). f i row) (enumerate 0 xs) = map (\<lambda>i. f i (xs ! i)) [0..<length xs]"
  by (rule nth_equalityI) (simp_all add: nth_enumerate_eq)

lemma getDiags_grid:
  assumes "square b"
  shows "getDiags b = [diagLine b, antiDiagLine b]"
proof -
  have 1: "map (\<lambda>(i, row). at row i) (enumerate 0 (state b)) = diagLine b"
    unfolding enumerate_index diagLine_def boardSize_def[symmetric]
  proof (rule map_cong[OF refl])
    fix i assume "i \<in> set [0..<boardSize b]"
    then have "i < boardSize b" "length (state b ! i) = boardSize b"
      using row_length[OF assms] by simp_all
    then show "at (state b ! i) i = Some (state b ! i ! i)" by (simp add: at_def)
  qed
  have 2: "map (\<lambda>(i, row). at row (boardSize b - i - 1)) (enumerate 0 (state b)) = antiDiagLine b"
    unfolding enumerate_index antiDiagLine_def boardSize_def[symmetric]
  proof (rule map_cong[OF refl])
    fix i assume "i \<in> set [0..<boardSize b]"
    then have "i < boardSize b" "length (state b ! i) = boardSize b"
      using row_length[OF assms] by simp_all
    then show "at (state b ! i) (boardSize b - i - 1) = Some (state b ! i ! (boardSize b - i - 1))"
      by (simp add: at_def)
  qed
  show ?thesis by (simp only: getDiags_def 1 2)
qed

lemma lines_grid:
  assumes "square b"
  shows "lines b = gridLines b"
  by (simp only: lines_def gridLines_def getRows_grid[OF assms] getCols_grid[OF assms]
      getDiags_grid[OF assms])


text \<open>
  A mark has a line on a board when some row, some column or one of the two diagonals holds
  that mark on every square.
\<close>

definition hasLine :: "board \<Rightarrow> string \<Rightarrow> bool" where
  "hasLine b m =
     (0 < boardSize b
      \<and> ((\<exists>y \<in> {0..<boardSize b}. \<forall>x \<in> {0..<boardSize b}. state b ! y ! x = m)
         \<or> (\<exists>x \<in> {0..<boardSize b}. \<forall>y \<in> {0..<boardSize b}. state b ! y ! x = m)
         \<or> (\<forall>i \<in> {0..<boardSize b}. state b ! i ! i = m)
         \<or> (\<forall>i \<in> {0..<boardSize b}. state b ! i ! (boardSize b - i - 1) = m)))"

lemma hasLine_less:
  "hasLine b m =
     (0 < boardSize b
      \<and> ((\<exists>y<boardSize b. \<forall>x<boardSize b. state b ! y ! x = m)
         \<or> (\<exists>x<boardSize b. \<forall>y<boardSize b. state b ! y ! x = m)
         \<or> (\<forall>i<boardSize b. state b ! i ! i = m)
         \<or> (\<forall>i<boardSize b. state b ! i ! (boardSize b - i - 1) = m)))"
  by (simp add: hasLine_def Ball_def Bex_def)

lemma wonBy_map: "wonBy m (map (\<lambda>i. Some (f i)) [0..<n]) = (0 < n \<and> (\<forall>i<n. f i = m))"
proof
  assume w: "wonBy m (map (\<lambda>i. Some (f i)) [0..<n])"
  then have s: "(\<lambda>i. Some (f i)) ` {0..<n} = {Some m}" by (simp add: wonBy_def)
  then have "{0..<n} \<noteq> {}" by auto
  moreover have "\<forall>i<n. f i = m"
  proof (intro allI impI)
    fix i assume "i < n"
    then have "Some (f i) \<in> (\<lambda>i. Some (f i)) ` {0..<n}" by simp
    then show "f i = m" unfolding s by simp
  qed
  ultimately show "0 < n \<and> (\<forall>i<n. f i = m)" by simp
next
  assume a: "0 < n \<and> (\<forall>i<n. f i = m)"
  then have "(\<lambda>i. Some (f i)) ` {0..<n} = {Some m}" by (auto simp: image_iff)
  then show "wonBy m (map (\<lambda>i. Some (f i)) [0..<n])" by (simp add: wonBy_def)
qed

lemma gridLines_cases:
  "line \<in> set (gridLines b) =
     ((\<exists>y<boardSize b. line = rowLine b y) \<or> (\<exists>x<boardSize b. line = colLine b x)
      \<or> line = diagLine b \<or> line = antiDiagLine b)"
  by (auto simp: gridLines_def)

lemma wonBy_gridLines: "(\<exists>line \<in> set (gridLines b). wonBy m line) = hasLine b m"
proof -
  have r: "\<And>y. wonBy m (rowLine b y) = (0 < boardSize b \<and> (\<forall>x<boardSize b. state b ! y ! x = m))"
    unfolding rowLine_def by (rule wonBy_map)
  have c: "\<And>x. wonBy m (colLine b x) = (0 < boardSize b \<and> (\<forall>y<boardSize b. state b ! y ! x = m))"
    unfolding colLine_def by (rule wonBy_map)
  have d: "wonBy m (diagLine b) = (0 < boardSize b \<and> (\<forall>i<boardSize b. state b ! i ! i = m))"
    unfolding diagLine_def by (rule wonBy_map)
  have a: "wonBy m (antiDiagLine b)
           = (0 < boardSize b \<and> (\<forall>i<boardSize b. state b ! i ! (boardSize b - i - 1) = m))"
    unfolding antiDiagLine_def by (rule wonBy_map)
  have "(\<exists>line \<in> set (gridLines b). wonBy m line)
        = ((\<exists>y<boardSize b. wonBy m (rowLine b y)) \<or> (\<exists>x<boardSize b. wonBy m (colLine b x))
           \<or> wonBy m (diagLine b) \<or> wonBy m (antiDiagLine b))"
    unfolding gridLines_cases[abs_def] Bex_def by blast
  then show ?thesis unfolding r c d a hasLine_less by blast
qed

lemma empty_gridLines:
  "(\<exists>line \<in> set (gridLines b). Some ''E'' \<in> set line)
   = (\<exists>y<boardSize b. \<exists>x<boardSize b. state b ! y ! x = ''E'')"
proof
  assume "\<exists>line \<in> set (gridLines b). Some ''E'' \<in> set line"
  then obtain line where l: "line \<in> set (gridLines b)" and e: "Some ''E'' \<in> set line" by blast
  from l consider (row) y where "y < boardSize b" "line = rowLine b y"
    | (col) x where "x < boardSize b" "line = colLine b x"
    | (diag) "line = diagLine b" | (anti) "line = antiDiagLine b"
    unfolding gridLines_cases by blast
  then show "\<exists>y<boardSize b. \<exists>x<boardSize b. state b ! y ! x = ''E''"
  proof cases
    case row
    then obtain x where "x < boardSize b" "state b ! y ! x = ''E''"
      using e by (auto simp: rowLine_def)
    then show ?thesis using row(1) by blast
  next
    case col
    then obtain y where "y < boardSize b" "state b ! y ! x = ''E''"
      using e by (auto simp: colLine_def)
    then show ?thesis using col(1) by blast
  next
    case diag
    then obtain i where "i < boardSize b" "state b ! i ! i = ''E''"
      using e by (auto simp: diagLine_def)
    then show ?thesis by blast
  next
    case anti
    then obtain i where i: "i < boardSize b" "state b ! i ! (boardSize b - i - 1) = ''E''"
      using e by (auto simp: antiDiagLine_def)
    then have "boardSize b - i - 1 < boardSize b" by simp
    then show ?thesis using i by blast
  qed
next
  assume "\<exists>y<boardSize b. \<exists>x<boardSize b. state b ! y ! x = ''E''"
  then obtain y x where yx: "y < boardSize b" "x < boardSize b" "state b ! y ! x = ''E''" by blast
  then have "rowLine b y \<in> set (gridLines b)" "Some ''E'' \<in> set (rowLine b y)"
    by (auto simp: gridLines_cases rowLine_def image_iff intro: bexI[of _ x])
  then show "\<exists>line \<in> set (gridLines b). Some ''E'' \<in> set line" by blast
qed


text \<open>
  Claim C5. On a well-formed position the lines scanned by \<^verbatim>\<open>getWinner\<close> are the rows, then
  the columns, then the two diagonals of the grid, square by square. \<^verbatim>\<open>getWinner\<close> returns the
  mark of the first line in that order whose squares all hold \<^verbatim>\<open>"X"\<close> or all hold \<^verbatim>\<open>"O"\<close>. So
  it returns \<^verbatim>\<open>"X"\<close> or \<^verbatim>\<open>"O"\<close> exactly when one of the two marks has a row, a column or a
  diagonal; the mark returned has such a line, and it is the only candidate when the other
  mark has none. When neither mark has a line it returns \<^verbatim>\<open>"D"\<close> (draw) if no square of the
  grid is empty and \<^verbatim>\<open>"L"\<close> (ongoing) if some square is empty; it returns nothing else.
\<close>

theorem getWinner_lines:
  assumes "wellFormed b"
  shows "lines b = gridLines b
    \<and> getWinner b =
        (case List.find winningLine (gridLines b) of
           Some line \<Rightarrow> if wonBy ''X'' line then ''X'' else ''O''
         | None \<Rightarrow> if \<forall>line \<in> set (gridLines b). Some ''E'' \<notin> set line then ''D'' else ''L'')
    \<and> ((getWinner b = ''X'' \<or> getWinner b = ''O'') = (hasLine b ''X'' \<or> hasLine b ''O''))
    \<and> (getWinner b = ''X'' \<longrightarrow> hasLine b ''X'')
    \<and> (getWinner b = ''O'' \<longrightarrow> hasLine b ''O'')
    \<and> (hasLine b ''X'' \<and> \<not> hasLine b ''O'' \<longrightarrow> getWinner b = ''X'')
    \<and> (hasLine b ''O'' \<and> \<not> hasLine b ''X'' \<longrightarrow> getWinner b = ''O'')
    \<and> ((getWinner b = ''D'')
         = (\<not> hasLine b ''X'' \<and> \<not> hasLine b ''O''
            \<and> (\<forall>y<boardSize b. \<forall>x<boardSize b. state b ! y ! x \<noteq> ''E'')))
    \<and> ((getWinner b = ''L'')
         = (\<not> hasLine b ''X'' \<and> \<not> hasLine b ''O''
            \<and> (\<exists>y<boardSize b. \<exists>x<boardSize b. state b ! y ! x = ''E'')))"
proof -
  have sq: "square b" using assms by (simp add: wellFormed_def)
  have l: "lines b = gridLines b" by (rule lines_grid[OF sq])
  have f: "getWinner b =
        (case List.find winningLine (gridLines b) of
           Some line \<Rightarrow> if wonBy ''X'' line then ''X'' else ''O''
         | None \<Rightarrow> if \<forall>line \<in> set (gridLines b). Some ''E'' \<notin> set line then ''D'' else ''L'')"
    by (simp add: getWinner_def scanLines_find l split: option.splits)
  have win: "(\<exists>line \<in> set (gridLines b). winningLine line) = (hasLine b ''X'' \<or> hasLine b ''O'')"
    unfolding winningLine_def wonBy_gridLines[symmetric] by blast
  have emp: "(\<forall>line \<in> set (gridLines b). Some ''E'' \<notin> set line)
             = (\<forall>y<boardSize b. \<forall>x<boardSize b. state b ! y ! x \<noteq> ''E'')"
    using empty_gridLines[of b] by blast
  have xo: "''X'' \<noteq> ''O''" "''X'' \<noteq> ''D''" "''X'' \<noteq> ''L''" "''O'' \<noteq> ''D''"
    "''O'' \<noteq> ''L''" "''D'' \<noteq> ''L''" by simp_all
  have r: "(getWinner b = ''X'' \<or> getWinner b = ''O'') = (hasLine b ''X'' \<or> hasLine b ''O'')
    \<and> (getWinner b = ''X'' \<longrightarrow> hasLine b ''X'')
    \<and> (getWinner b = ''O'' \<longrightarrow> hasLine b ''O'')
    \<and> (hasLine b ''X'' \<and> \<not> hasLine b ''O'' \<longrightarrow> getWinner b = ''X'')
    \<and> (hasLine b ''O'' \<and> \<not> hasLine b ''X'' \<longrightarrow> getWinner b = ''O'')
    \<and> ((getWinner b = ''D'')
         = (\<not> hasLine b ''X'' \<and> \<not> hasLine b ''O''
            \<and> (\<forall>y<boardSize b. \<forall>x<boardSize b. state b ! y ! x \<noteq> ''E'')))
    \<and> ((getWinner b = ''L'')
         = (\<not> hasLine b ''X'' \<and> \<not> hasLine b ''O''
            \<and> (\<exists>y<boardSize b. \<exists>x<boardSize b. state b ! y ! x = ''E'')))"
  proof (cases "List.find winningLine (gridLines b)")
    case None
    then have no: "\<not> (\<exists>line \<in> set (gridLines b). winningLine line)"
      by (simp add: find_None_iff)
    then have h: "\<not> hasLine b ''X''" "\<not> hasLine b ''O''" using win by auto
    have g: "getWinner b = (if \<forall>y<boardSize b. \<forall>x<boardSize b. state b ! y ! x \<noteq> ''E''
                            then ''D'' else ''L'')"
      unfolding f None emp by simp
    show ?thesis
    proof (cases "\<forall>y<boardSize b. \<forall>x<boardSize b. state b ! y ! x \<noteq> ''E''")
      case True
      then have "getWinner b = ''D''" using g by simp
      then show ?thesis using h True by simp
    next
      case False
      then have "getWinner b = ''L''" using g by simp
      then show ?thesis using h False by simp
    qed
  next
    case (Some line)
    then have ln: "line \<in> set (gridLines b)" "winningLine line"
      by (auto simp: find_Some_iff)
    have g: "getWinner b = (if wonBy ''X'' line then ''X'' else ''O'')"
      unfolding f Some by simp
    show ?thesis
    proof (cases "wonBy ''X'' line")
      case True
      then have hx: "hasLine b ''X''" using ln(1) wonBy_gridLines[of b "''X''"] by blast
      have "getWinner b = ''X''" using g True by simp
      then show ?thesis using hx by simp
    next
      case False
      then have "wonBy ''O'' line" using ln(2) by (simp add: winningLine_def)
      then have ho: "hasLine b ''O''" using ln(1) wonBy_gridLines[of b "''O''"] by blast
      have "getWinner b = ''O''" using g False by simp
      then show ?thesis using ho by simp
    qed
  qed
  show ?thesis by (rule conjI[OF l conjI[OF f r]])
qed

theorem getWinner_lines_witness:
  "wellFormed xRow \<and> getWinner xRow = ''X'' \<and> hasLine xRow ''X''
   \<and> wellFormed xCol \<and> getWinner xCol = ''X'' \<and> hasLine xCol ''X''
   \<and> wellFormed xDiag \<and> getWinner xDiag = ''X'' \<and> hasLine xDiag ''X''
   \<and> wellFormed oAnti \<and> getWinner oAnti = ''O'' \<and> hasLine oAnti ''O''
   \<and> wellFormed twoRows \<and> getWinner twoRows = ''O'' \<and> hasLine twoRows ''O''
   \<and> hasLine twoRows ''X''
   \<and> wellFormed drawn \<and> getWinner drawn = ''D''
   \<and> \<not> hasLine drawn ''X'' \<and> \<not> hasLine drawn ''O''
   \<and> wellFormed b4 \<and> getWinner b4 = ''L''
   \<and> \<not> hasLine b4 ''X'' \<and> \<not> hasLine b4 ''O''"
proof -
  have w1: "wellFormed xRow"
    by (simp add: wellFormed_def square_def boardSize_def xRow_def)
  have w2: "wellFormed xCol"
    by (simp add: wellFormed_def square_def boardSize_def xCol_def)
  have w3: "wellFormed xDiag"
    by (simp add: wellFormed_def square_def boardSize_def xDiag_def)
  have w4: "wellFormed oAnti"
    by (simp add: wellFormed_def square_def boardSize_def oAnti_def)
  have w5: "wellFormed twoRows"
    by (simp add: wellFormed_def square_def boardSize_def twoRows_def)
  have w6: "wellFormed drawn"
    by (simp add: wellFormed_def square_def boardSize_def drawn_def)
  have g1: "getWinner xRow = ''X''" by code_simp
  have g2: "getWinner xCol = ''X''" by code_simp
  have g3: "getWinner xDiag = ''X''" by code_simp
  have g4: "getWinner oAnti = ''O''" by code_simp
  have g5: "getWinner twoRows = ''O''" by code_simp
  have g6: "getWinner drawn = ''D''" by code_simp
  have d: "''D'' \<noteq> ''X''" "''D'' \<noteq> ''O''" "''L'' \<noteq> ''X''" "''L'' \<noteq> ''O''"
    "''L'' \<noteq> ''D''" by simp_all
  have h1: "hasLine xRow ''X''"
    by (rule getWinner_lines[OF w1, THEN conjunct2, THEN conjunct2, THEN conjunct2,
          THEN conjunct1, rule_format, OF g1])
  have h2: "hasLine xCol ''X''"
    by (rule getWinner_lines[OF w2, THEN conjunct2, THEN conjunct2, THEN conjunct2,
          THEN conjunct1, rule_format, OF g2])
  have h3: "hasLine xDiag ''X''"
    by (rule getWinner_lines[OF w3, THEN conjunct2, THEN conjunct2, THEN conjunct2,
          THEN conjunct1, rule_format, OF g3])
  have h4: "hasLine oAnti ''O''"
    by (rule getWinner_lines[OF w4, THEN conjunct2, THEN conjunct2, THEN conjunct2,
          THEN conjunct2, THEN conjunct1, rule_format, OF g4])
  have h5: "hasLine twoRows ''O''"
    by (rule getWinner_lines[OF w5, THEN conjunct2, THEN conjunct2, THEN conjunct2,
          THEN conjunct2, THEN conjunct1, rule_format, OF g5])
  have x5: "hasLine twoRows ''X''" by code_simp
  have h6: "\<not> hasLine drawn ''X'' \<and> \<not> hasLine drawn ''O''"
    using getWinner_lines[OF w6, THEN conjunct2, THEN conjunct2, THEN conjunct2,
          THEN conjunct2, THEN conjunct2, THEN conjunct2, THEN conjunct2, THEN conjunct1] g6
    by simp
  have h7: "\<not> hasLine b4 ''X'' \<and> \<not> hasLine b4 ''O''"
    using getWinner_lines[OF wellFormed_b4, THEN conjunct2, THEN conjunct2, THEN conjunct2,
          THEN conjunct2, THEN conjunct2, THEN conjunct2, THEN conjunct2, THEN conjunct2]
      getWinner_b4
    by simp
  show ?thesis
    using w1 w2 w3 w4 w5 w6 wellFormed_b4 g1 g2 g3 g4 g5 g6 getWinner_b4 h1 h2 h3 h4 h5 x5 h6 h7
    by (intro conjI) simp_all
qed


section \<open>The children of a position\<close>

lemma cells_product:
  assumes "\<forall>row \<in> set rs. length row = n"
  shows "map (\<lambda>(y, x). rs ! y ! x) (List.product [0..<length rs] [0..<n]) = concat rs"
proof -
  have "map (\<lambda>(y, x). rs ! y ! x) (List.product [0..<length rs] [0..<n])
        = concat (map (\<lambda>y. map (\<lambda>x. rs ! y ! x) [0..<n]) [0..<length rs])"
    by (simp add: product_concat_map map_concat comp_def)
  also have "\<dots> = concat (map (\<lambda>y. rs ! y) [0..<length rs])"
  proof -
    have eq: "map (\<lambda>y. map (\<lambda>x. rs ! y ! x) [0..<n]) [0..<length rs]
               = map (\<lambda>y. rs ! y) [0..<length rs]"
    proof (rule map_cong[OF refl])
      fix y assume "y \<in> set [0..<length rs]"
      then have "length (rs ! y) = n" using assms by simp
      then show "map (\<lambda>x. rs ! y ! x) [0..<n] = rs ! y"
        using map_nth[of "rs ! y"] by simp
    qed
    show ?thesis by (simp only: eq)
  qed
  also have "\<dots> = concat rs" by (simp add: map_nth)
  finally show ?thesis .
qed

lemma emptyCells_square:
  assumes "square b"
  shows "emptyCells b = filter (\<lambda>(y, x). state b ! y ! x = ''E'')
                          (List.product [0..<boardSize b] [0..<boardSize b])"
  unfolding emptyCells_def
proof (rule filter_cong[OF refl])
  fix q assume "q \<in> set (List.product [0..<boardSize b] [0..<boardSize b])"
  then obtain y x where q: "q = (y, x)" and r: "y < boardSize b" "x < boardSize b" by auto
  then have "length (state b ! y) = boardSize b"
    using assms by (simp add: square_def boardSize_def)
  then show "(case q of (y, x) \<Rightarrow> at (state b ! y) x = Some ''E'')
             = (case q of (y, x) \<Rightarrow> state b ! y ! x = ''E'')"
    using r by (simp add: q at_def)
qed

lemma length_emptyCells_square:
  assumes "square b"
  shows "length (emptyCells b) = count_list (concat (state b)) ''E''"
proof -
  have "length (emptyCells b)
        = length (filter (\<lambda>v. v = ''E'')
            (map (\<lambda>(y, x). state b ! y ! x) (List.product [0..<boardSize b] [0..<boardSize b])))"
    by (simp add: emptyCells_square[OF assms] filter_map comp_def split_def)
  also have "\<dots> = length (filter (\<lambda>v. v = ''E'') (concat (state b)))"
    using cells_product[of "state b" "boardSize b"] assms
    by (simp add: square_def boardSize_def)
  also have "\<dots> = count_list (concat (state b)) ''E''"
  proof -
    have "(\<lambda>v. v = ''E'') = (=) ''E''" by auto
    then show ?thesis by (simp add: count_list_eq_length_filter)
  qed
  finally show ?thesis .
qed


text \<open>
  Claim C6. On a position, \<^verbatim>\<open>getChildBoards\<close> returns one child for every empty square, in
  row-major order (rows from 0, and columns from 0 inside a row). Each child is the parent
  with that one square set to the mark of the side to move and the turn flag negated. The
  number of children is the number of empty squares, and there is no child when no square
  is empty.
\<close>

theorem getChildBoards_cells:
  assumes "wellFormed b"
  shows "getChildBoards b =
           map (\<lambda>(y, x). \<lparr>state = (state b)[y := (state b ! y)[x := playerSymbol b]],
                          compSymbol = compSymbol b, isCompTurn = \<not> isCompTurn b\<rparr>)
             (filter (\<lambda>(y, x). state b ! y ! x = ''E'')
                (List.product [0..<boardSize b] [0..<boardSize b]))
         \<and> length (getChildBoards b) = count_list (concat (state b)) ''E''
         \<and> ((\<forall>row \<in> set (state b). ''E'' \<notin> set row) \<longrightarrow> getChildBoards b = [])"
proof -
  have sq: "square b" using assms by (simp add: wellFormed_def)
  have 1: "getChildBoards b =
           map (\<lambda>(y, x). \<lparr>state = (state b)[y := (state b ! y)[x := playerSymbol b]],
                          compSymbol = compSymbol b, isCompTurn = \<not> isCompTurn b\<rparr>)
             (filter (\<lambda>(y, x). state b ! y ! x = ''E'')
                (List.product [0..<boardSize b] [0..<boardSize b]))"
    by (simp add: getChildBoards_emptyCells emptyCells_square[OF sq] place_def)
  have 2: "length (getChildBoards b) = count_list (concat (state b)) ''E''"
    by (simp add: getChildBoards_emptyCells length_emptyCells_square[OF sq])
  have 3: "(\<forall>row \<in> set (state b). ''E'' \<notin> set row) \<longrightarrow> getChildBoards b = []"
  proof
    assume "\<forall>row \<in> set (state b). ''E'' \<notin> set row"
    then have "count_list (concat (state b)) ''E'' = 0"
      by (simp add: count_list_0_iff)
    then show "getChildBoards b = []" using 2 by simp
  qed
  show ?thesis using 1 2 3 by blast
qed

theorem getChildBoards_cells_witness:
  "wellFormed b4
   \<and> map state (getChildBoards b4) =
       [[[''X'', ''X'', ''E''], [''E'', ''X'', ''E''], [''O'', ''O'', ''E'']],
        [[''X'', ''E'', ''X''], [''E'', ''X'', ''E''], [''O'', ''O'', ''E'']],
        [[''X'', ''E'', ''E''], [''X'', ''X'', ''E''], [''O'', ''O'', ''E'']],
        [[''X'', ''E'', ''E''], [''E'', ''X'', ''X''], [''O'', ''O'', ''E'']],
        [[''X'', ''E'', ''E''], [''E'', ''X'', ''E''], [''O'', ''O'', ''X'']]]
   \<and> length (getChildBoards b4) = 5"
proof -
  have c: "getChildBoards b4 =
           map (\<lambda>(y, x). \<lparr>state = (state b4)[y := (state b4 ! y)[x := playerSymbol b4]],
                          compSymbol = compSymbol b4, isCompTurn = \<not> isCompTurn b4\<rparr>)
             (filter (\<lambda>(y, x). state b4 ! y ! x = ''E'')
                (List.product [0..<boardSize b4] [0..<boardSize b4]))"
    and n: "length (getChildBoards b4) = count_list (concat (state b4)) ''E''"
    using getChildBoards_cells[OF wellFormed_b4] by blast+
  have e: "map state (map (\<lambda>(y, x). \<lparr>state = (state b4)[y := (state b4 ! y)[x := playerSymbol b4]],
                          compSymbol = compSymbol b4, isCompTurn = \<not> isCompTurn b4\<rparr>)
             (filter (\<lambda>(y, x). state b4 ! y ! x = ''E'')
                (List.product [0..<boardSize b4] [0..<boardSize b4])))
      = [[[''X'', ''X'', ''E''], [''E'', ''X'', ''E''], [''O'', ''O'', ''E'']],
        [[''X'', ''E'', ''X''], [''E'', ''X'', ''E''], [''O'', ''O'', ''E'']],
        [[''X'', ''E'', ''E''], [''X'', ''X'', ''E''], [''O'', ''O'', ''E'']],
        [[''X'', ''E'', ''E''], [''E'', ''X'', ''X''], [''O'', ''O'', ''E'']],
        [[''X'', ''E'', ''E''], [''E'', ''X'', ''E''], [''O'', ''O'', ''X'']]]"
    by code_simp
  have k: "count_list (concat (state b4)) ''E'' = 5" by code_simp
  show ?thesis using wellFormed_b4 e k by (simp only: c[symmetric] n simp_thms)
qed

section \<open>Terminal positions and finite scores\<close>

lemma line_cell:
  assumes sq: "square b" and l: "line \<in> set (lines b)" and v: "Some v \<in> set line"
  shows "\<exists>y<boardSize b. \<exists>x<boardSize b. at (state b ! y) x = Some v"
proof -
  have len: "\<And>y. y < boardSize b \<Longrightarrow> length (state b ! y) = boardSize b"
    using sq by (simp add: square_def boardSize_def)
  from l consider (row) "line \<in> set (getRows b)" | (col) "line \<in> set (getCols b)"
    | (diag) "line \<in> set (getDiags b)"
    by (auto simp: lines_def)
  then show ?thesis
  proof cases
    case row
    then obtain y where y: "y < boardSize b" and line: "line = map Some (state b ! y)"
      by (auto simp: getRows_def boardSize_def in_set_conv_nth)
    from v line obtain x where x: "x < length (state b ! y)" "state b ! y ! x = v"
      by (auto simp: in_set_conv_nth)
    then have "x < boardSize b" "at (state b ! y) x = Some v"
      using len[OF y] by (simp_all add: at_def)
    then show ?thesis using y by blast
  next
    case col
    then obtain x where x: "x < boardSize b" and line: "line = map (\<lambda>row. at row x) (state b)"
      by (auto simp: getCols_def)
    from v line obtain y where "y < boardSize b" "at (state b ! y) x = Some v"
      by (auto simp: in_set_conv_nth boardSize_def)
    then show ?thesis using x by auto
  next
    case diag
    then consider "line = map (\<lambda>(i, row). at row i) (enumerate 0 (state b))"
      | "line = map (\<lambda>(i, row). at row (boardSize b - i - 1)) (enumerate 0 (state b))"
      by (auto simp: getDiags_def)
    then show ?thesis
    proof cases
      case 1
      with v obtain i where "i < boardSize b" "at (state b ! i) i = Some v"
        by (auto simp: in_set_enumerate_eq boardSize_def image_iff)
      then show ?thesis by auto
    next
      case 2
      with v obtain i where i: "i < boardSize b" "at (state b ! i) (boardSize b - i - 1) = Some v"
        by (auto simp: in_set_enumerate_eq boardSize_def image_iff)
      then have "boardSize b - i - 1 < boardSize b" by simp
      then show ?thesis using i by blast
    qed
  qed
qed

lemma getWinner_cases:
  "getWinner b = ''X'' \<or> getWinner b = ''O'' \<or> getWinner b = ''D'' \<or> getWinner b = ''L''"
  by (simp add: getWinner_def scanLines_find split: option.splits)

lemma ongoing_line:
  assumes "getWinner b = ''L''"
  shows "\<exists>line \<in> set (lines b). Some ''E'' \<in> set line"
  using assms by (auto simp: getWinner_def scanLines_find split: option.splits if_splits)

lemma draw_lines:
  assumes "getWinner b = ''D''"
  shows "\<forall>line \<in> set (lines b). Some ''E'' \<notin> set line"
  using assms by (auto simp: getWinner_def scanLines_find split: option.splits if_splits)

lemma ongoing_has_child:
  assumes "square b" "getWinner b = ''L''"
  shows "getChildBoards b \<noteq> []"
proof -
  from ongoing_line[OF assms(2)] obtain line where "line \<in> set (lines b)" "Some ''E'' \<in> set line"
    by auto
  from line_cell[OF assms(1) this] obtain y x
    where "y < boardSize b" "x < boardSize b" "at (state b ! y) x = Some ''E''" by auto
  then have "(y, x) \<in> set (emptyCells b)" by (simp add: emptyCells_def)
  then show ?thesis by (auto simp: getChildBoards_emptyCells)
qed

lemma draw_no_child:
  assumes "getWinner b = ''D''"
  shows "getChildBoards b = []"
proof -
  have "emptyCells b = []"
  proof (rule ccontr)
    assume "emptyCells b \<noteq> []"
    then obtain y x where yx: "(y, x) \<in> set (emptyCells b)"
      by (cases "emptyCells b") auto
    from emptyCells_in_range[OF yx]
    have "''E'' \<in> set (state b ! y)" "state b ! y \<in> set (state b)"
      by (auto simp: boardSize_def in_set_conv_nth)
    then have "Some ''E'' \<in> set (map Some (state b ! y))"
      "map Some (state b ! y) \<in> set (lines b)"
      by (simp_all add: getRows_def lines_def)
    then show False using draw_lines[OF assms] by blast
  qed
  then show ?thesis by (simp add: getChildBoards_emptyCells)
qed

lemma NegInfinity_least: "NegInfinity \<le> (v::jsnum)"
  by simp

lemma Infinity_greatest: "(v::jsnum) \<le> Infinity"
  by (cases v) simp_all

lemma Math_max_Max: "xs \<noteq> [] \<Longrightarrow> Math_max xs = Max (set xs)"
proof (cases xs)
  case Nil
  then show "xs \<noteq> [] \<Longrightarrow> ?thesis" by simp
next
  case (Cons x ys)
  have "max x NegInfinity = x" by (rule max_absorb1) simp
  then have "Math_max xs = fold max ys x" by (simp add: Math_max_def Cons)
  also have "\<dots> = Max (set (x # ys))" by (rule Max.set_eq_fold[symmetric])
  finally show ?thesis by (simp only: Cons)
qed

lemma Math_min_Min: "xs \<noteq> [] \<Longrightarrow> Math_min xs = Min (set xs)"
proof (cases xs)
  case Nil
  then show "xs \<noteq> [] \<Longrightarrow> ?thesis" by simp
next
  case (Cons x ys)
  have "min x Infinity = x" by (rule min_absorb1) (rule Infinity_greatest)
  then have "Math_min xs = fold min ys x" by (simp add: Math_min_def Cons)
  also have "\<dots> = Min (set (x # ys))" by (rule Min.set_eq_fold[symmetric])
  finally show ?thesis by (simp only: Cons)
qed

lemma Math_max_in: "xs \<noteq> [] \<Longrightarrow> Math_max xs \<in> set xs"
  using Max_in[of "set xs"] by (simp add: Math_max_Max)

lemma Math_min_in: "xs \<noteq> [] \<Longrightarrow> Math_min xs \<in> set xs"
  using Min_in[of "set xs"] by (simp add: Math_min_Min)

lemma mapState_inv:
  assumes step: "\<And>x u. x \<in> set xs \<Longrightarrow> I u \<Longrightarrow> R x (fst (f x u)) \<and> I (snd (f x u))"
    and init: "I s"
  shows "list_all2 R xs (fst (mapState f xs s)) \<and> I (snd (mapState f xs s))"
  using assms
proof (induction xs arbitrary: s)
  case Nil
  then show ?case by simp
next
  case (Cons x xs)
  obtain y s1 where f: "f x s = (y, s1)" by (cases "f x s")
  obtain ys s2 where m: "mapState f xs s1 = (ys, s2)" by (cases "mapState f xs s1")
  from Cons.prems(1)[of x s] Cons.prems(2) f have 1: "R x y" "I s1" by auto
  have "list_all2 R xs (fst (mapState f xs s1)) \<and> I (snd (mapState f xs s1))"
    by (rule Cons.IH) (use Cons.prems(1) 1 in auto)
  then show ?case using 1 by (simp add: f m)
qed

lemma rows_place:
  assumes "row \<in> set (state (place b y x p t))"
  shows "row \<in> set (state b) \<or> (y < length (state b) \<and> row = (state b ! y)[x := p])"
proof (cases "y < length (state b)")
  case True
  have "set ((state b)[y := (state b ! y)[x := p]]) \<subseteq> insert ((state b ! y)[x := p]) (set (state b))"
    by (rule set_update_subset_insert)
  then show ?thesis using assms True by (auto simp: place_def)
next
  case False
  then show ?thesis using assms by (simp add: place_def list_update_beyond)
qed

lemma square_place:
  assumes "square b"
  shows "square (place b y x p t)"
  unfolding square_def boardSize_place
proof
  fix row assume "row \<in> set (state (place b y x p t))"
  from rows_place[OF this] show "length row = boardSize b"
    using assms by (auto simp: square_def boardSize_def)
qed

lemma wellFormed_place:
  assumes "wellFormed b" "p = ''X'' \<or> p = ''O''"
  shows "wellFormed (place b y x p t)"
proof -
  have sq: "square (place b y x p t)" using assms square_place by (simp add: wellFormed_def)
  have cells: "\<forall>row \<in> set (state (place b y x p t)). \<forall>cell \<in> set row.
                 cell = ''X'' \<or> cell = ''O'' \<or> cell = ''E''"
  proof (intro ballI)
    fix row cell
    assume r: "row \<in> set (state (place b y x p t))" and c: "cell \<in> set row"
    from rows_place[OF r]
    consider "row \<in> set (state b)" | "row = (state b ! y)[x := p]" "y < length (state b)"
      by auto
    then show "cell = ''X'' \<or> cell = ''O'' \<or> cell = ''E''"
    proof cases
      case 1
      then show ?thesis using assms(1) c by (auto simp: wellFormed_def)
    next
      case 2
      have "set ((state b ! y)[x := p]) \<subseteq> insert p (set (state b ! y))"
        by (rule set_update_subset_insert)
      then have "cell = p \<or> cell \<in> set (state b ! y)"
        using c 2 by auto
      moreover have "state b ! y \<in> set (state b)" using 2 by simp
      ultimately show ?thesis using assms by (auto simp: wellFormed_def)
    qed
  qed
  show ?thesis using sq cells assms(1) by (simp add: wellFormed_def)
qed

lemma wellFormed_compSymbol:
  "wellFormed b \<Longrightarrow> compSymbol b = ''X'' \<or> compSymbol b = ''O''"
  by (simp add: wellFormed_def)

lemma playerSymbol_wf:
  assumes "wellFormed b"
  shows "playerSymbol b = ''X'' \<or> playerSymbol b = ''O''"
  using wellFormed_compSymbol[OF assms] by (auto simp: playerSymbol_def humanSymbol_def)

lemma wellFormed_child:
  assumes "wellFormed b" "ch \<in> set (getChildBoards b)"
  shows "wellFormed ch"
proof -
  from assms(2) obtain y x where "ch = place b y x (playerSymbol b) (\<not> isCompTurn b)"
    by (auto simp: getChildBoards_emptyCells)
  then show ?thesis
    using wellFormed_place[OF assms(1) playerSymbol_wf[OF assms(1)]] by simp
qed

lemma wellFormed_ongoing:
  assumes "wellFormed b"
  shows "(getWinner b \<noteq> compSymbol b \<and> getWinner b \<noteq> humanSymbol b \<and> getWinner b \<noteq> ''D'')
         = (getWinner b = ''L'')"
  using wellFormed_compSymbol[OF assms] getWinner_cases[of b]
  by (auto simp: humanSymbol_def)

lemma finiteCache_upd: "finiteCache c \<Longrightarrow> finiteCache (c(k \<mapsto> Num n))"
  by (simp add: finiteCache_def)

lemma finiteCache_lookup: "finiteCache c \<Longrightarrow> c k = Some v \<Longrightarrow> \<exists>n. v = Num n"
  unfolding finiteCache_def by blast

lemma getScore_hit:
  assumes "truthy (c (stringState b))"
  shows "getScore b c = (the (c (stringState b)), c)"
  using assms by (simp add: getScore.simps[of b c])

lemma getScore_miss:
  assumes "\<not> truthy (c (stringState b))" "forceGetScore b c = (score, c1)"
  shows "getScore b c = (score, c1(stringState b \<mapsto> score))"
  using assms by (simp add: getScore.simps[of b c])

lemma forceGetScore_ongoing:
  assumes "wellFormed b" "getWinner b = ''L''" "mapState getScore (getChildBoards b) c = (scores, c1)"
  shows "forceGetScore b c = (if isCompTurn b then Math_max scores else Math_min scores, c1)"
proof -
  have "getWinner b \<noteq> compSymbol b" "getWinner b \<noteq> humanSymbol b" "getWinner b \<noteq> ''D''"
    using wellFormed_ongoing[OF assms(1)] assms(2) by auto
  then show ?thesis using assms(3) by (simp add: forceGetScore.simps[of b c])
qed

lemma forceGetScore_terminal:
  assumes "wellFormed b" "getWinner b \<noteq> ''L''"
  shows "\<exists>n. forceGetScore b c = (Num n, c)"
proof -
  have "getWinner b = compSymbol b \<or> getWinner b = humanSymbol b \<or> getWinner b = ''D''"
    using wellFormed_ongoing[OF assms(1)] assms(2) by blast
  then show ?thesis by (auto simp: forceGetScore.simps[of b c])
qed

lemma getScore_invariant:
  fixes S :: "board \<Rightarrow> bool" and I :: "cache \<Rightarrow> bool" and V :: "board \<Rightarrow> jsnum \<Rightarrow> bool"
  assumes wf: "\<And>d. S d \<Longrightarrow> wellFormed d"
    and child: "\<And>d ch. S d \<Longrightarrow> getWinner d = ''L'' \<Longrightarrow> ch \<in> set (getChildBoards d) \<Longrightarrow> S ch"
    and hit: "\<And>d u v. S d \<Longrightarrow> I u \<Longrightarrow> u (stringState d) = Some v \<Longrightarrow> V d v"
    and store: "\<And>d u v. S d \<Longrightarrow> I u \<Longrightarrow> V d v \<Longrightarrow> I (u(stringState d \<mapsto> v))"
    and leaf: "\<And>d u. S d \<Longrightarrow> getWinner d \<noteq> ''L'' \<Longrightarrow> V d (fst (forceGetScore d u))"
    and node: "\<And>d scores. S d \<Longrightarrow> getWinner d = ''L'' \<Longrightarrow> list_all2 V (getChildBoards d) scores
                \<Longrightarrow> V d (if isCompTurn d then Math_max scores else Math_min scores)"
  shows "S b \<Longrightarrow> I c \<Longrightarrow> V b (fst (getScore b c)) \<and> I (snd (getScore b c))"
    and "S b \<Longrightarrow> I c \<Longrightarrow> V b (fst (forceGetScore b c)) \<and> I (snd (forceGetScore b c))"
proof (induction b c and b c rule: getScore_forceGetScore.induct)
  case (1 b c)
  show ?case
  proof (cases "truthy (c (stringState b))")
    case True
    then obtain v where v: "c (stringState b) = Some v" by (cases "c (stringState b)") auto
    have g: "getScore b c = (v, c)"
      using getScore_hit[of c b] True v by simp
    have "V b v" using hit "1.prems" v by blast
    then show ?thesis using "1.prems"(2) by (simp only: g fst_conv snd_conv simp_thms)
  next
    case False
    obtain score c1 where f: "forceGetScore b c = (score, c1)" by (cases "forceGetScore b c")
    have g: "getScore b c = (score, c1(stringState b \<mapsto> score))"
      using False f by (rule getScore_miss)
    have "V b (fst (forceGetScore b c)) \<and> I (snd (forceGetScore b c))"
      using "1.IH" False "1.prems" by blast
    then have "V b score" "I c1" by (simp_all add: f)
    then have "I (c1(stringState b \<mapsto> score))" using store "1.prems"(1) by blast
    then show ?thesis using \<open>V b score\<close> by (simp only: g fst_conv snd_conv simp_thms)
  qed
next
  case (2 b c)
  have wfb: "wellFormed b" using wf "2.prems"(1) by blast
  show ?case
  proof (cases "getWinner b = ''L''")
    case False
    from forceGetScore_terminal[OF wfb False, of c] obtain n
      where t: "forceGetScore b c = (Num n, c)" by blast
    have "V b (fst (forceGetScore b c))" using leaf "2.prems"(1) False by blast
    then show ?thesis using "2.prems"(2) by (simp add: t)
  next
    case True
    then have t: "getWinner b \<noteq> compSymbol b" "getWinner b \<noteq> humanSymbol b" "getWinner b \<noteq> ''D''"
      using wellFormed_ongoing[OF wfb] by auto
    have step: "\<And>x u. x \<in> set (getChildBoards b) \<Longrightarrow> I u \<Longrightarrow>
        V x (fst (getScore x u)) \<and> I (snd (getScore x u))"
    proof -
      fix x u assume x: "x \<in> set (getChildBoards b)" and u: "I u"
      have sx: "S x" using child "2.prems"(1) True x by blast
      show "V x (fst (getScore x u)) \<and> I (snd (getScore x u))"
      proof (cases "isCompTurn b")
        case True
        from "2.IH"(1)[OF t True x sx u] show ?thesis .
      next
        case False
        from "2.IH"(2)[OF t False x sx u] show ?thesis .
      qed
    qed
    obtain scores c1 where m: "mapState getScore (getChildBoards b) c = (scores, c1)"
      by (cases "mapState getScore (getChildBoards b) c")
    have "list_all2 V (getChildBoards b) (fst (mapState getScore (getChildBoards b) c))
          \<and> I (snd (mapState getScore (getChildBoards b) c))"
    proof (rule mapState_inv[where I = I and R = V and f = getScore and s = c
            and xs = "getChildBoards b"])
      show "\<And>x u. x \<in> set (getChildBoards b) \<Longrightarrow> I u \<Longrightarrow>
              V x (fst (getScore x u)) \<and> I (snd (getScore x u))"
        by (rule step)
      show "I c" by (rule "2.prems"(2))
    qed
    then have all: "list_all2 V (getChildBoards b) scores" and c1: "I c1"
      by (simp_all add: m)
    have "V b (if isCompTurn b then Math_max scores else Math_min scores)"
      using node "2.prems"(1) True all by blast
    then show ?thesis using c1
      by (simp only: forceGetScore_ongoing[OF wfb True m] fst_conv snd_conv simp_thms)
  qed
qed

lemma scores_finite:
  assumes "wellFormed b" "finiteCache c"
  shows "(\<exists>n. fst (forceGetScore b c) = Num n) \<and> finiteCache (snd (forceGetScore b c))"
proof (rule getScore_invariant(2)[where S = wellFormed and I = finiteCache
        and V = "\<lambda>d v. \<exists>n. v = Num n"])
  show "\<And>d. wellFormed d \<Longrightarrow> wellFormed d" .
  show "\<And>d ch. wellFormed d \<Longrightarrow> getWinner d = ''L'' \<Longrightarrow> ch \<in> set (getChildBoards d)
          \<Longrightarrow> wellFormed ch"
    by (rule wellFormed_child)
  show "\<And>d u v. wellFormed d \<Longrightarrow> finiteCache u \<Longrightarrow> u (stringState d) = Some v \<Longrightarrow> \<exists>n. v = Num n"
    by (rule finiteCache_lookup)
  show "\<And>d u v. wellFormed d \<Longrightarrow> finiteCache u \<Longrightarrow> \<exists>n. v = Num n
          \<Longrightarrow> finiteCache (u(stringState d \<mapsto> v))"
    using finiteCache_upd by blast
  show "\<And>d u. wellFormed d \<Longrightarrow> getWinner d \<noteq> ''L'' \<Longrightarrow> \<exists>n. fst (forceGetScore d u) = Num n"
    using forceGetScore_terminal by (metis fst_conv)
  show "\<And>d scores. wellFormed d \<Longrightarrow> getWinner d = ''L''
          \<Longrightarrow> list_all2 (\<lambda>d v. \<exists>n. v = Num n) (getChildBoards d) scores
          \<Longrightarrow> \<exists>n. (if isCompTurn d then Math_max scores else Math_min scores) = Num n"
  proof -
    fix d scores
    assume wf: "wellFormed d" and l: "getWinner d = ''L''"
      and all: "list_all2 (\<lambda>d v. \<exists>n. v = Num n) (getChildBoards d) scores"
    have "getChildBoards d \<noteq> []"
      using ongoing_has_child l wf by (simp add: wellFormed_def)
    with all have sne: "scores \<noteq> []" by auto
    from all have fin: "\<forall>v \<in> set scores. \<exists>n. v = Num n"
      by (auto simp: list_all2_conv_all_nth in_set_conv_nth)
    have "\<exists>n. Math_max scores = Num n" "\<exists>n. Math_min scores = Num n"
      using Math_max_in[OF sne] Math_min_in[OF sne] fin by auto
    then show "\<exists>n. (if isCompTurn d then Math_max scores else Math_min scores) = Num n"
      by simp
  qed
  show "wellFormed b" by (rule assms(1))
  show "finiteCache c" by (rule assms(2))
qed

lemma finiteCache_empty: "finiteCache Map.empty"
  by (simp add: finiteCache_def)


text \<open>
  Claim C10. On a position whose cache holds integers only, \<^verbatim>\<open>forceGetScore\<close> reaches the
  recursive branch only when \<^verbatim>\<open>getWinner\<close> is \<^verbatim>\<open>"L"\<close>, and then \<^verbatim>\<open>getChildBoards\<close> is not
  empty: \<^verbatim>\<open>Math.max\<close> and \<^verbatim>\<open>Math.min\<close> get at least one argument, and the score returned is
  an integer, never an infinity.
\<close>

theorem forceGetScore_finite:
  assumes "wellFormed b" "finiteCache c"
  shows "(getWinner b = ''L'' \<longrightarrow> getChildBoards b \<noteq> [])
         \<and> (\<exists>n. fst (forceGetScore b c) = Num n)"
  using ongoing_has_child[of b] scores_finite[OF assms] assms(1)
  by (simp add: wellFormed_def)


theorem forceGetScore_finite_witness:
  "wellFormed b4 \<and> finiteCache Map.empty \<and> getWinner b4 = ''L'' \<and> getChildBoards b4 \<noteq> []
   \<and> (\<exists>n. fst (forceGetScore b4 Map.empty) = Num n)"
  using forceGetScore_finite[OF wellFormed_b4 finiteCache_empty] wellFormed_b4 finiteCache_empty
    getWinner_b4
  by simp


lemma forceGetScore_human:
  assumes "getWinner b = humanSymbol b"
  shows "forceGetScore b c = (Num (- 100 + int (length (getChildBoards b))), c)"
proof -
  have "humanSymbol b \<noteq> compSymbol b" by (simp add: humanSymbol_def)
  then show ?thesis using assms by (simp add: forceGetScore.simps[of b c])
qed

lemma forceGetScore_draw:
  assumes "wellFormed b" "getWinner b = ''D''"
  shows "forceGetScore b c = (Num 0, c)"
proof -
  have "compSymbol b \<noteq> ''D''" "humanSymbol b \<noteq> ''D''"
    using wellFormed_compSymbol[OF assms(1)] by (auto simp: humanSymbol_def)
  then show ?thesis
    using assms(2) draw_no_child[OF assms(2)] by (simp add: forceGetScore.simps[of b c])
qed


text \<open>
  Claim C1, as stated: on every position won by the human \<^verbatim>\<open>forceGetScore\<close> returns \<open>-100\<close>,
  on every drawn position \<open>0\<close>, and a terminal position has no child. The first and the
  last part fail: \<^verbatim>\<open>getChildBoards\<close> does not look at the outcome, so a position won before
  the grid is full has one child for each empty square, and the score of a human win is
  \<open>-100\<close> plus that number. Here the human has the top row and four squares are empty.
\<close>

theorem forceGetScore_human_win_counterexample:
  "wellFormed oRow \<and> getWinner oRow = humanSymbol oRow
   \<and> fst (forceGetScore oRow Map.empty) = Num (- 96)
   \<and> fst (forceGetScore oRow Map.empty) \<noteq> Num (- 100)
   \<and> length (getChildBoards oRow) = 4"
proof -
  have w: "wellFormed oRow"
    by (simp add: wellFormed_def square_def boardSize_def oRow_def)
  have g: "getWinner oRow = ''O''" by code_simp
  have h: "humanSymbol oRow = ''O''" by (simp add: humanSymbol_def oRow_def)
  have c: "compSymbol oRow = ''X''" by (simp add: oRow_def)
  have l: "length (getChildBoards oRow) = 4" by code_simp
  have f: "fst (forceGetScore oRow Map.empty) = Num (- 96)"
    by (simp add: forceGetScore.simps[of oRow] g h c l)
  show ?thesis using w g h l f by simp
qed


text \<open>
  Claim C1, amended. A position won by the human has one child for each empty square of its
  grid, so it has no child only when the grid is full; \<^verbatim>\<open>forceGetScore\<close> leaves the cache as
  it is on such a position, and returns \<open>-100\<close> when the grid is full. On a drawn position
  \<^verbatim>\<open>forceGetScore\<close> returns \<open>0\<close> and leaves the cache as it is, and a drawn position has no
  child.
\<close>

theorem forceGetScore_terminal_scores:
  assumes "wellFormed b"
  shows "(getWinner b = humanSymbol b \<longrightarrow>
            length (getChildBoards b) = count_list (concat (state b)) ''E''
            \<and> snd (forceGetScore b c) = c
            \<and> (count_list (concat (state b)) ''E'' = 0 \<longrightarrow>
                 forceGetScore b c = (Num (- 100), c)))
         \<and> (getWinner b = ''D'' \<longrightarrow> forceGetScore b c = (Num 0, c) \<and> getChildBoards b = [])"
proof -
  have sq: "square b" using assms by (simp add: wellFormed_def)
  have len: "length (getChildBoards b) = count_list (concat (state b)) ''E''"
    by (simp add: getChildBoards_emptyCells length_emptyCells_square[OF sq])
  have 1: "getWinner b = humanSymbol b \<longrightarrow>
            length (getChildBoards b) = count_list (concat (state b)) ''E''
            \<and> snd (forceGetScore b c) = c
            \<and> (count_list (concat (state b)) ''E'' = 0 \<longrightarrow>
                 forceGetScore b c = (Num (- 100), c))"
    using forceGetScore_human[of b c] by (simp add: len)
  have 2: "getWinner b = ''D'' \<longrightarrow> forceGetScore b c = (Num 0, c) \<and> getChildBoards b = []"
    using forceGetScore_draw[OF assms, of c] draw_no_child[of b] by simp
  show ?thesis by (rule conjI[OF 1 2])
qed

theorem forceGetScore_terminal_scores_witness:
  "wellFormed oRow \<and> getWinner oRow = humanSymbol oRow
   \<and> length (getChildBoards oRow) = 4 \<and> snd (forceGetScore oRow Map.empty) = Map.empty
   \<and> wellFormed oFull \<and> getWinner oFull = humanSymbol oFull
   \<and> length (getChildBoards oFull) = 0
   \<and> forceGetScore oFull Map.empty = (Num (- 100), Map.empty)
   \<and> wellFormed drawn \<and> getWinner drawn = ''D''
   \<and> forceGetScore drawn Map.empty = (Num 0, Map.empty) \<and> getChildBoards drawn = []"
proof -
  have w: "wellFormed oRow"
    by (simp add: wellFormed_def square_def boardSize_def oRow_def)
  have g: "getWinner oRow = humanSymbol oRow" by code_simp
  have n: "count_list (concat (state oRow)) ''E'' = 4" by (simp add: oRow_def)
  have w1: "wellFormed oFull"
    by (simp add: wellFormed_def square_def boardSize_def oFull_def)
  have g1: "getWinner oFull = humanSymbol oFull" by code_simp
  have n1: "count_list (concat (state oFull)) ''E'' = 0" by (simp add: oFull_def)
  have w2: "wellFormed drawn"
    by (simp add: wellFormed_def square_def boardSize_def drawn_def)
  have g2: "getWinner drawn = ''D''" by code_simp
  show ?thesis
    using forceGetScore_terminal_scores[OF w, of Map.empty]
      forceGetScore_terminal_scores[OF w1, of Map.empty]
      forceGetScore_terminal_scores[OF w2, of Map.empty] w g n w1 g1 n1 w2 g2
    by simp
qed


section \<open>The minimax value and consistent caches\<close>

text \<open>
  The minimax value of a board: the recursion of \<^verbatim>\<open>forceGetScore\<close> with every child
  scored afresh, without a cache. This is the score that a cache entry has to agree with.
\<close>

function minimax :: "board \<Rightarrow> jsnum" where
  "minimax b =
     (if getWinner b = compSymbol b then Num (100 - int (length (getChildBoards b)))
      else if getWinner b = humanSymbol b then Num (- 100 + int (length (getChildBoards b)))
      else if getWinner b = ''D'' then Num (0 + int (length (getChildBoards b)))
      else if isCompTurn b then Math_max (map minimax (getChildBoards b))
      else Math_min (map minimax (getChildBoards b)))"
  by pat_completeness auto
termination
  by (relation "measure depth") (auto dest: depth_child)

declare minimax.simps [simp del]

text \<open>
  The boards that the search started on \<open>b\<close> can visit: \<open>b\<close>, and the boards reachable
  from the children of \<open>b\<close> when \<open>b\<close> is ongoing.
\<close>

function reachable :: "board \<Rightarrow> board list" where
  "reachable b =
     b # (if getWinner b = ''L'' then concat (map reachable (getChildBoards b)) else [])"
  by pat_completeness auto
termination
  by (relation "measure depth") (auto dest: depth_child)

declare reachable.simps [simp del]

text \<open>
  A cache is consistent for the search from \<open>r\<close> when every board of that search whose
  key is stored has its minimax value stored there.
\<close>

definition cacheOk :: "board \<Rightarrow> cache \<Rightarrow> bool" where
  "cacheOk r c =
     list_all (\<lambda>d. case c (stringState d) of None \<Rightarrow> True | Some v \<Rightarrow> v = minimax d)
       (reachable r)"

lemma reachable_self: "b \<in> set (reachable b)"
  by (subst reachable.simps) simp

lemma reachable_child:
  "d \<in> set (reachable r) \<Longrightarrow> getWinner d = ''L'' \<Longrightarrow> ch \<in> set (getChildBoards d)
   \<Longrightarrow> ch \<in> set (reachable r)"
proof (induction r rule: reachable.induct)
  case (1 b)
  from "1.prems"(1) consider (self) "d = b"
    | (below) x where "getWinner b = ''L''" "x \<in> set (getChildBoards b)" "d \<in> set (reachable x)"
    by (subst (asm) reachable.simps) (auto split: if_splits)
  then show ?case
  proof cases
    case self
    then have "ch \<in> set (reachable ch)" "getWinner b = ''L''" "ch \<in> set (getChildBoards b)"
      using "1.prems" reachable_self by auto
    then show ?thesis by (subst reachable.simps) auto
  next
    case below
    from "1.IH"[OF below(1,2,3) "1.prems"(2,3)] below(1,2)
    show ?thesis by (subst reachable.simps) auto
  qed
qed

lemma reachable_induct [consumes 1, case_names root step]:
  assumes "d \<in> set (reachable r)"
    and "P r"
    and "\<And>p ch. p \<in> set (reachable r) \<Longrightarrow> P p \<Longrightarrow> getWinner p = ''L''
           \<Longrightarrow> ch \<in> set (getChildBoards p) \<Longrightarrow> P ch"
  shows "P d"
  using assms
proof (induction r arbitrary: d rule: reachable.induct)
  case (1 b)
  from "1.prems"(1) consider (self) "d = b"
    | (below) x where "getWinner b = ''L''" "x \<in> set (getChildBoards b)" "d \<in> set (reachable x)"
    by (subst (asm) reachable.simps) (auto split: if_splits)
  then show ?case
  proof cases
    case self
    then show ?thesis using "1.prems"(2) by simp
  next
    case below
    have px: "P x" using "1.prems"(3)[OF reachable_self "1.prems"(2) below(1,2)] .
    have sub: "\<And>p. p \<in> set (reachable x) \<Longrightarrow> p \<in> set (reachable b)"
      using below(1,2) by (subst reachable.simps) auto
    show ?thesis
      by (rule "1.IH"[OF below(1,2,3) px]) (use "1.prems"(3) sub in blast)
  qed
qed

subsection \<open>The key of the cache determines the grid\<close>

lemma length_join:
  assumes "\<forall>x \<in> set xs. length x = k"
  shows "length (join sep xs) = length xs * k + (length xs - 1) * length sep"
  using assms by (induction sep xs rule: join.induct) auto

lemma join_inject:
  assumes "\<forall>x \<in> set xs. length x = k" "\<forall>y \<in> set ys. length y = k" "length xs = length ys"
    and "join sep xs = join sep ys"
  shows "xs = ys"
  using assms
proof (induction sep xs arbitrary: ys rule: join.induct)
  case (1 sep)
  then show ?case by simp
next
  case (2 sep x)
  then obtain y where "ys = [y]" by (cases ys) auto
  then show ?case using "2.prems" by simp
next
  case (3 sep x x' xs)
  then obtain y y' ys' where ys: "ys = y # y' # ys'"
    by (cases ys; cases "tl ys") auto
  have "length x = length y" using "3.prems" ys by simp
  then have "x = y" "join sep (x' # xs) = join sep (y' # ys')"
    using "3.prems"(4) ys by simp_all
  moreover have "x' # xs = y' # ys'"
    by (rule "3.IH") (use "3.prems" ys calculation in auto)
  ultimately show ?case using ys by simp
qed

lemma wellFormed_rows:
  assumes "wellFormed b" "row \<in> set (state b)"
  shows "length row = boardSize b" "\<forall>cell \<in> set row. length cell = 1"
proof -
  show "length row = boardSize b" using assms by (simp add: wellFormed_def square_def)
  have "\<forall>cell \<in> set row. cell = ''X'' \<or> cell = ''O'' \<or> cell = ''E''"
    using assms by (simp add: wellFormed_def)
  then show "\<forall>cell \<in> set row. length cell = 1" by fastforce
qed

lemma stringState_inject:
  assumes wf1: "wellFormed b1" and wf2: "wellFormed b2"
    and size: "boardSize b1 = boardSize b2"
    and key: "stringState b1 = stringState b2"
  shows "state b1 = state b2"
proof -
  let ?n = "boardSize b1"
  let ?k = "?n * 1 + (?n - 1) * length '',''"
  have l1: "\<forall>s \<in> set (map (join '','') (state b1)). length s = ?k"
    using wellFormed_rows[OF wf1] by (auto simp: length_join[where k = 1])
  have l2: "\<forall>s \<in> set (map (join '','') (state b2)). length s = ?k"
    using wellFormed_rows[OF wf2] size by (auto simp: length_join[where k = 1])
  have len: "length (map (join '','') (state b1)) = length (map (join '','') (state b2))"
    using size by (simp add: boardSize_def)
  have m: "map (join '','') (state b1) = map (join '','') (state b2)"
    using l1 l2 len key[unfolded stringState_def] by (rule join_inject)
  have "inj_on (join '','') (set (state b1) \<union> set (state b2))"
  proof (rule inj_onI)
    fix r1 r2
    assume r: "r1 \<in> set (state b1) \<union> set (state b2)" "r2 \<in> set (state b1) \<union> set (state b2)"
      and j: "join '','' r1 = join '','' r2"
    have c1: "\<forall>cell \<in> set r1. length cell = 1" and n1: "length r1 = ?n"
      using r(1) wellFormed_rows[OF wf1] wellFormed_rows[OF wf2] size by auto
    have c2: "\<forall>cell \<in> set r2. length cell = 1" and n2: "length r2 = ?n"
      using r(2) wellFormed_rows[OF wf1] wellFormed_rows[OF wf2] size by auto
    have "length r1 = length r2" using n1 n2 by simp
    with c1 c2 show "r1 = r2" using j by (rule join_inject)
  qed
  then show ?thesis using m by (simp add: inj_on_map_eq_map)
qed

lemma length_filter_neq:
  assumes "distinct xs" "a \<in> set xs"
  shows "Suc (length (filter (\<lambda>q. q \<noteq> a) xs)) = length xs"
proof -
  have "\<And>ys. a \<notin> set ys \<Longrightarrow> filter (\<lambda>q. q \<noteq> a) ys = ys"
    by (simp add: filter_id_conv) blast
  then show ?thesis using assms by (induction xs) auto
qed

lemma emptyCount_child:
  assumes "wellFormed b" "ch \<in> set (getChildBoards b)"
  shows "Suc (emptyCount ch) = emptyCount b"
proof -
  from assms(2) obtain y x where yx: "(y, x) \<in> set (emptyCells b)"
    and ch: "ch = place b y x (playerSymbol b) (\<not> isCompTurn b)"
    by (auto simp: getChildBoards_emptyCells)
  have p: "playerSymbol b \<noteq> ''E''" using playerSymbol_wf[OF assms(1)] by auto
  have "emptyCells ch = filter (\<lambda>q. q \<noteq> (y, x)) (emptyCells b)"
    using emptyCells_place[OF yx, of "playerSymbol b" "\<not> isCompTurn b"] p by (simp add: ch)
  then show ?thesis
    using length_filter_neq[OF distinct_emptyCells yx] by (simp add: emptyCount_emptyCells)
qed

lemma child_fields:
  assumes "ch \<in> set (getChildBoards b)"
  shows "compSymbol ch = compSymbol b" "isCompTurn ch = (\<not> isCompTurn b)"
    "boardSize ch = boardSize b"
  using assms by (auto simp: getChildBoards_emptyCells boardSize_place)

definition sameGame :: "board \<Rightarrow> board \<Rightarrow> bool" where
  "sameGame r d =
     (wellFormed d \<and> compSymbol d = compSymbol r \<and> boardSize d = boardSize r
      \<and> ((isCompTurn d = isCompTurn r) = even (emptyCount r + emptyCount d)))"

lemma reachable_sameGame:
  assumes "wellFormed r" "d \<in> set (reachable r)"
  shows "sameGame r d"
  using assms(2)
proof (induction rule: reachable_induct)
  case root
  show ?case using assms(1) by (simp add: sameGame_def)
next
  case (step p ch)
  have wf: "wellFormed p" using step.IH by (simp add: sameGame_def)
  have "Suc (emptyCount ch) = emptyCount p" by (rule emptyCount_child[OF wf step.hyps(3)])
  then have "even (emptyCount r + emptyCount p) = (\<not> even (emptyCount r + emptyCount ch))"
    by (metis add_Suc_right even_Suc)
  then show ?case
    using step.IH child_fields[OF step.hyps(3)] wellFormed_child[OF wf step.hyps(3)]
    by (auto simp: sameGame_def)
qed

lemma emptyCount_state: "state d1 = state d2 \<Longrightarrow> emptyCount d1 = emptyCount d2"
  by (simp add: emptyCount_emptyCells emptyCells_def boardSize_def)

lemma reachable_key_inject:
  assumes wf: "wellFormed r" and d1: "d1 \<in> set (reachable r)" and d2: "d2 \<in> set (reachable r)"
    and key: "stringState d1 = stringState d2"
  shows "d1 = d2"
proof -
  have s1: "sameGame r d1" and s2: "sameGame r d2"
    using reachable_sameGame[OF wf] d1 d2 by auto
  have st: "state d1 = state d2"
    using s1 s2 key by (intro stringState_inject) (simp_all add: sameGame_def)
  have "emptyCount d1 = emptyCount d2" by (rule emptyCount_state[OF st])
  then have "isCompTurn d1 = isCompTurn d2" "compSymbol d1 = compSymbol d2"
    using s1 s2 by (auto simp: sameGame_def)
  then show ?thesis using st by (cases d1; cases d2) simp
qed

lemma minimax_leaf:
  assumes "wellFormed b" "getWinner b \<noteq> ''L''"
  shows "fst (forceGetScore b c) = minimax b"
proof -
  have "getWinner b = compSymbol b \<or> getWinner b = humanSymbol b \<or> getWinner b = ''D''"
    using wellFormed_ongoing[OF assms(1)] assms(2) by blast
  then show ?thesis
    by (auto simp: forceGetScore.simps[of b c] minimax.simps[of b])
qed

lemma minimax_node:
  assumes "wellFormed b" "getWinner b = ''L''"
  shows "minimax b = (if isCompTurn b then Math_max (map minimax (getChildBoards b))
                      else Math_min (map minimax (getChildBoards b)))"
proof -
  have "getWinner b \<noteq> compSymbol b" "getWinner b \<noteq> humanSymbol b" "getWinner b \<noteq> ''D''"
    using wellFormed_ongoing[OF assms(1)] assms(2) by auto
  then show ?thesis by (simp add: minimax.simps[of b])
qed

lemma cacheOk_lookup:
  "cacheOk r c \<Longrightarrow> d \<in> set (reachable r) \<Longrightarrow> c (stringState d) = Some v \<Longrightarrow> v = minimax d"
  by (auto simp: cacheOk_def list_all_iff)

lemma cacheOk_store:
  assumes wf: "wellFormed r" and ok: "cacheOk r c" and d: "d \<in> set (reachable r)"
  shows "cacheOk r (c(stringState d \<mapsto> minimax d))"
  unfolding cacheOk_def list_all_iff
proof
  fix d' assume d': "d' \<in> set (reachable r)"
  show "case (c(stringState d \<mapsto> minimax d)) (stringState d') of None \<Rightarrow> True
        | Some v \<Rightarrow> v = minimax d'"
  proof (cases "stringState d' = stringState d")
    case True
    then have "d' = d" using reachable_key_inject[OF wf d' d] by simp
    then show ?thesis by simp
  next
    case False
    then show ?thesis using ok d' by (simp add: cacheOk_def list_all_iff)
  qed
qed

lemma cacheOk_empty: "cacheOk r Map.empty"
  by (simp add: cacheOk_def list_all_iff)

lemma getScore_correct:
  assumes wf: "wellFormed r" and d: "d \<in> set (reachable r)" and ok: "cacheOk r c"
  shows "fst (getScore d c) = minimax d \<and> cacheOk r (snd (getScore d c))"
proof (rule getScore_invariant(1)[where S = "\<lambda>d. d \<in> set (reachable r)" and I = "cacheOk r"
        and V = "\<lambda>d v. v = minimax d"])
  show "\<And>d. d \<in> set (reachable r) \<Longrightarrow> wellFormed d"
    using reachable_sameGame[OF wf] by (simp add: sameGame_def)
  show "\<And>d ch. d \<in> set (reachable r) \<Longrightarrow> getWinner d = ''L'' \<Longrightarrow> ch \<in> set (getChildBoards d)
          \<Longrightarrow> ch \<in> set (reachable r)"
    by (rule reachable_child)
  show "\<And>d u v. d \<in> set (reachable r) \<Longrightarrow> cacheOk r u \<Longrightarrow> u (stringState d) = Some v
          \<Longrightarrow> v = minimax d"
    using cacheOk_lookup by blast
  show "\<And>d u v. d \<in> set (reachable r) \<Longrightarrow> cacheOk r u \<Longrightarrow> v = minimax d
          \<Longrightarrow> cacheOk r (u(stringState d \<mapsto> v))"
    using cacheOk_store[OF wf] by blast
  show "\<And>d u. d \<in> set (reachable r) \<Longrightarrow> getWinner d \<noteq> ''L''
          \<Longrightarrow> fst (forceGetScore d u) = minimax d"
    using minimax_leaf reachable_sameGame[OF wf] by (simp add: sameGame_def)
  show "\<And>d scores. d \<in> set (reachable r) \<Longrightarrow> getWinner d = ''L''
          \<Longrightarrow> list_all2 (\<lambda>d v. v = minimax d) (getChildBoards d) scores
          \<Longrightarrow> (if isCompTurn d then Math_max scores else Math_min scores) = minimax d"
  proof -
    fix d scores
    assume d: "d \<in> set (reachable r)" and l: "getWinner d = ''L''"
      and all: "list_all2 (\<lambda>d v. v = minimax d) (getChildBoards d) scores"
    have wfd: "wellFormed d" using reachable_sameGame[OF wf d] by (simp add: sameGame_def)
    have "scores = map minimax (getChildBoards d)"
      using all by (simp add: list_all2_conv_all_nth list_eq_iff_nth_eq)
    then show "(if isCompTurn d then Math_max scores else Math_min scores) = minimax d"
      by (simp add: minimax_node[OF wfd l])
  qed
  show "d \<in> set (reachable r)" by (rule d)
  show "cacheOk r c" by (rule ok)
qed

text \<open>
  A cache that is consistent for a search is consistent for the search from every board
  of it: the cache of a session stays usable as the game goes on.
\<close>

lemma reachable_descend:
  assumes "b \<in> set (reachable r)" "d \<in> set (reachable b)"
  shows "d \<in> set (reachable r)"
  using assms(2)
proof (induction rule: reachable_induct)
  case root
  show ?case by (rule assms(1))
next
  case (step p ch)
  show ?case by (rule reachable_child[OF step.IH step.hyps(2,3)])
qed

lemma cacheOk_descend:
  assumes "b \<in> set (reachable r)" "cacheOk r c"
  shows "cacheOk b c"
  using assms reachable_descend[OF assms(1)] by (auto simp: cacheOk_def list_all_iff)


section \<open>Scores and moves on a consistent cache\<close>

lemma children_scores:
  assumes wf: "wellFormed b" and l: "getWinner b = ''L''" and ok: "cacheOk b c"
  shows "map (\<lambda>ch. fst (getScore ch c)) (getChildBoards b) = map minimax (getChildBoards b)"
proof (rule map_cong[OF refl])
  fix ch assume "ch \<in> set (getChildBoards b)"
  then have "ch \<in> set (reachable b)" using reachable_child[OF reachable_self l] by blast
  then show "fst (getScore ch c) = minimax ch" using getScore_correct[OF wf _ ok] by blast
qed


text \<open>
  Claim C2. On an ongoing position whose cache is consistent, \<^verbatim>\<open>getScore\<close> returns the greatest
  of the scores \<^verbatim>\<open>getScore\<close> gives to the children when the computer is to move, and the
  least of them when the human is to move. The children are scored on any consistent cache
  \<open>c'\<close>: the cache before the call is one, and so is the cache the call leaves behind. There
  is at least one child, so the greatest and the least score exist.
\<close>

theorem getScore_minimax:
  assumes "wellFormed b" "getWinner b = ''L''" "cacheOk b c" "cacheOk b c'"
  shows "fst (getScore b c) =
           (if isCompTurn b
            then Max (set (map (\<lambda>ch. fst (getScore ch c')) (getChildBoards b)))
            else Min (set (map (\<lambda>ch. fst (getScore ch c')) (getChildBoards b))))
         \<and> getChildBoards b \<noteq> []
         \<and> cacheOk b (snd (getScore b c))"
proof -
  have ne: "getChildBoards b \<noteq> []"
    using ongoing_has_child assms(1,2) by (simp add: wellFormed_def)
  then have ne': "map minimax (getChildBoards b) \<noteq> []" by simp
  have g: "fst (getScore b c) = minimax b" and ok: "cacheOk b (snd (getScore b c))"
    using getScore_correct[OF assms(1) reachable_self assms(3)] by auto
  have "minimax b = (if isCompTurn b then Max (set (map minimax (getChildBoards b)))
                     else Min (set (map minimax (getChildBoards b))))"
    using minimax_node[OF assms(1,2)] Math_max_Max[OF ne'] Math_min_Min[OF ne'] by simp
  then show ?thesis
    using g ok ne by (simp only: children_scores[OF assms(1,2,4)] simp_thms)
qed

theorem getScore_minimax_witness:
  "wellFormed b4 \<and> getWinner b4 = ''L'' \<and> cacheOk b4 Map.empty
   \<and> fst (getScore b4 Map.empty)
       = Max (set (map (\<lambda>ch. fst (getScore ch Map.empty)) (getChildBoards b4)))"
proof -
  have t: "isCompTurn b4" by (simp add: b4_def)
  show ?thesis
    using getScore_minimax[OF wellFormed_b4 getWinner_b4 cacheOk_empty cacheOk_empty]
      wellFormed_b4 getWinner_b4 cacheOk_empty[of b4] t
    by simp
qed


lemma findState_inv:
  assumes step: "\<And>x u. x \<in> set xs \<Longrightarrow> I u \<Longrightarrow> fst (p x u) = q x \<and> I (snd (p x u))"
    and init: "I s"
  shows "fst (findState p xs s) = List.find q xs \<and> I (snd (findState p xs s))"
  using assms
proof (induction xs arbitrary: s)
  case Nil
  then show ?case by simp
next
  case (Cons x xs)
  obtain found s1 where f: "p x s = (found, s1)" by (cases "p x s")
  from Cons.prems(1)[of x s] Cons.prems(2) f have 1: "found = q x" "I s1" by auto
  have "fst (findState p xs s1) = List.find q xs \<and> I (snd (findState p xs s1))"
    by (rule Cons.IH) (use Cons.prems(1) 1 in auto)
  then show ?case using 1 by (simp add: f)
qed

lemma sameScore_correct:
  assumes wf: "wellFormed b" and l: "getWinner b = ''L''" and ch: "ch \<in> set (getChildBoards b)"
    and ok: "cacheOk b u"
  shows "fst (sameScore b ch u) = (minimax ch = minimax b) \<and> cacheOk b (snd (sameScore b ch u))"
proof -
  obtain s1 c1 where g1: "getScore ch u = (s1, c1)" by (cases "getScore ch u")
  obtain s2 c2 where g2: "getScore b c1 = (s2, c2)" by (cases "getScore b c1")
  have r: "ch \<in> set (reachable b)" using reachable_child[OF reachable_self l ch] .
  from getScore_correct[OF wf r ok] g1 have 1: "s1 = minimax ch" "cacheOk b c1" by auto
  from getScore_correct[OF wf reachable_self 1(2)] g2 have 2: "s2 = minimax b" "cacheOk b c2"
    by auto
  show ?thesis using 1 2 by (simp add: sameScore_def g1 g2)
qed


text \<open>
  Claim C3. On a position with a consistent cache, \<^verbatim>\<open>getNextBestBoardState\<close> returns no board
  exactly when the computer is not to move or the position is not ongoing. On an ongoing
  position with the computer to move it returns the first child, in the order of
  \<^verbatim>\<open>getChildBoards\<close>, whose score equals the score of the position, and there is such a child.
\<close>

theorem getNextBestBoardState_first:
  assumes "wellFormed b" "cacheOk b c"
  shows "((fst (getNextBestBoardState b c) = None) = (\<not> isCompTurn b \<or> getWinner b \<noteq> ''L''))
         \<and> (isCompTurn b \<and> getWinner b = ''L'' \<longrightarrow>
              fst (getNextBestBoardState b c)
                = List.find (\<lambda>ch. fst (getScore ch c) = fst (getScore b c)) (getChildBoards b)
              \<and> (\<exists>ch \<in> set (getChildBoards b). fst (getScore ch c) = fst (getScore b c)))"
proof (cases "isCompTurn b \<and> getWinner b = ''L''")
  case False
  then show ?thesis by (auto simp: getNextBestBoardState_def)
next
  case True
  then have t: "isCompTurn b" and l: "getWinner b = ''L''" by auto
  have g: "fst (getScore b c) = minimax b"
    using getScore_correct[OF assms(1) reachable_self assms(2)] by simp
  have cs: "\<And>ch. ch \<in> set (getChildBoards b) \<Longrightarrow> fst (getScore ch c) = minimax ch"
    using getScore_correct[OF assms(1) reachable_child[OF reachable_self l] assms(2)] by simp
  have "fst (findState (sameScore b) (getChildBoards b) c)
          = List.find (\<lambda>ch. minimax ch = minimax b) (getChildBoards b)
        \<and> cacheOk b (snd (findState (sameScore b) (getChildBoards b) c))"
  proof (rule findState_inv[where I = "cacheOk b" and p = "sameScore b"
          and q = "\<lambda>ch. minimax ch = minimax b" and xs = "getChildBoards b" and s = c])
    show "\<And>x u. x \<in> set (getChildBoards b) \<Longrightarrow> cacheOk b u \<Longrightarrow>
            fst (sameScore b x u) = (minimax x = minimax b) \<and> cacheOk b (snd (sameScore b x u))"
      by (rule sameScore_correct[OF assms(1) l])
    show "cacheOk b c" by (rule assms(2))
  qed
  then have f: "fst (getNextBestBoardState b c)
                  = List.find (\<lambda>ch. minimax ch = minimax b) (getChildBoards b)"
    using t l by (simp add: getNextBestBoardState_def)
  have e: "List.find (\<lambda>ch. minimax ch = minimax b) (getChildBoards b)
           = List.find (\<lambda>ch. fst (getScore ch c) = fst (getScore b c)) (getChildBoards b)"
    by (rule find_cong[OF refl]) (simp add: g cs)
  have ne: "map minimax (getChildBoards b) \<noteq> []"
    using ongoing_has_child l assms(1) by (simp add: wellFormed_def)
  have "minimax b \<in> set (map minimax (getChildBoards b))"
    using Math_max_in[OF ne] minimax_node[OF assms(1) l] t by simp
  then obtain ch where ch: "ch \<in> set (getChildBoards b)" "minimax ch = minimax b" by auto
  then have ex: "\<exists>ch \<in> set (getChildBoards b). fst (getScore ch c) = fst (getScore b c)"
    using g cs by auto
  then have "List.find (\<lambda>ch. fst (getScore ch c) = fst (getScore b c)) (getChildBoards b) \<noteq> None"
    unfolding find_None_iff by blast
  then show ?thesis using True f e ex by simp
qed


theorem getNextBestBoardState_first_witness:
  "wellFormed b4 \<and> cacheOk b4 Map.empty \<and> isCompTurn b4 \<and> getWinner b4 = ''L''
   \<and> fst (getNextBestBoardState b4 Map.empty) \<noteq> None
   \<and> fst (getNextBestBoardState b4 Map.empty)
       = List.find (\<lambda>ch. fst (getScore ch Map.empty) = fst (getScore b4 Map.empty))
           (getChildBoards b4)"
proof -
  have t: "isCompTurn b4" by (simp add: b4_def)
  show ?thesis
    using getNextBestBoardState_first[OF wellFormed_b4 cacheOk_empty]
      wellFormed_b4 getWinner_b4 cacheOk_empty[of b4] t
    by auto
qed

text \<open>
  Consistency of the cache is what makes the search find a move. The cache of a session
  starts empty and is written by \<^verbatim>\<open>getScore\<close> only, so it is consistent; with an entry put
  there by other means the parent can read a score that no child has, and \<^verbatim>\<open>find\<close> returns
  \<^verbatim>\<open>undefined\<close>.
\<close>

definition single :: board where
  "single = \<lparr>state = [[''E'']], compSymbol = ''X'', isCompTurn = True\<rparr>"

lemma stale_cache_no_move:
  "wellFormed single \<and> isCompTurn single \<and> getWinner single = ''L''
   \<and> fst (getNextBestBoardState single [stringState single \<mapsto> Num 7]) = None"
proof -
  have w: "wellFormed single" by (simp add: wellFormed_def square_def boardSize_def single_def)
  have t: "isCompTurn single" by (simp add: single_def)
  have g: "getWinner single = ''L''" by code_simp
  have n: "fst (getNextBestBoardState single [stringState single \<mapsto> Num 7]) = None"
    by code_simp
  show ?thesis using w t g n by simp
qed

section \<open>The scenario of the diagonal\<close>

definition win4 :: board where
  "win4 = \<lparr>state = [[''X'', ''E'', ''E''], [''E'', ''X'', ''E''], [''O'', ''O'', ''X'']],
           compSymbol = ''X'', isCompTurn = False\<rparr>"

lemma best_b4:
  "fst (getNextBestBoardState b4 Map.empty) = Some win4"
  by code_simp

lemma winner_win4: "getWinner win4 = ''X''"
  by code_simp

lemma children_win4: "length (getChildBoards win4) = 4"
  by code_simp

lemma force_win4: "forceGetScore win4 c = (Num 96, c)"
  by (simp add: forceGetScore.simps[of win4 c] winner_win4 children_win4) (simp add: win4_def)

lemma score_win4_empty: "fst (getScore win4 Map.empty) = Num 96"
  by (simp add: getScore.simps[of win4 Map.empty] force_win4)

lemma score_win4_after:
  "fst (getScore win4 (snd (getNextBestBoardState b4 Map.empty))) = Num 96"
  by code_simp


text \<open>
  Claim C4, as stated: on the grid \<^verbatim>\<open>[["X","E","E"],["E","X","E"],["O","O","E"]]\<close> with the
  computer playing \<^verbatim>\<open>"X"\<close> and to move, \<^verbatim>\<open>getNextBestBoardState\<close> returns the child with
  \<^verbatim>\<open>"X"\<close> at row 2, column 2, which is won by the computer and has score \<open>100\<close>. The move and
  the outcome are right, the score is not: four squares of the child are empty, and the
  score of a computer win is \<open>100\<close> minus the number of children.
\<close>

theorem scenario_score_counterexample:
  "fst (getNextBestBoardState b4 Map.empty) = Some win4
   \<and> getWinner win4 = compSymbol win4
   \<and> fst (getScore win4 (snd (getNextBestBoardState b4 Map.empty))) \<noteq> Num 100
   \<and> fst (getScore win4 Map.empty) \<noteq> Num 100"
  using best_b4 winner_win4 score_win4_after score_win4_empty by (simp add: win4_def)


text \<open>
  Claim C4, amended. On that board \<^verbatim>\<open>getNextBestBoardState\<close> returns the child with \<^verbatim>\<open>"X"\<close> at
  row 2, column 2, the other squares and the computer's symbol as they were and the human to
  move; that child is won by the computer.
\<close>

theorem scenario_best_move:
  "fst (getNextBestBoardState b4 Map.empty) = Some win4
   \<and> state win4 = (state b4)[2 := (state b4 ! 2)[2 := ''X'']]
   \<and> isCompTurn win4 = (\<not> isCompTurn b4) \<and> compSymbol win4 = compSymbol b4
   \<and> getWinner win4 = compSymbol win4"
  using best_b4 winner_win4 by (simp add: win4_def b4_def)


subsection \<open>The choice between two wins\<close>

text \<open>
  The comments of \<^verbatim>\<open>forceGetScore\<close> read "win as fast as possible" and "lose as slowly as
  possible", and the score of a won position depends on the number of its children. On the
  board below the computer can complete the top row at once. The child that does so has
  score \<open>96\<close>; the child with \<^verbatim>\<open>"X"\<close> at row 2, column 0, which blocks the human and wins one
  round later, has score \<open>98\<close>, and it is the one \<^verbatim>\<open>getNextBestBoardState\<close> returns.
\<close>

definition b5 :: board where
  "b5 = \<lparr>state = [[''X'', ''X'', ''E''], [''E'', ''E'', ''E''], [''E'', ''O'', ''O'']],
         compSymbol = ''X'', isCompTurn = True\<rparr>"

definition win5 :: board where
  "win5 = \<lparr>state = [[''X'', ''X'', ''X''], [''E'', ''E'', ''E''], [''E'', ''O'', ''O'']],
           compSymbol = ''X'', isCompTurn = False\<rparr>"

definition block5 :: board where
  "block5 = \<lparr>state = [[''X'', ''X'', ''E''], [''E'', ''E'', ''E''], [''X'', ''O'', ''O'']],
             compSymbol = ''X'', isCompTurn = False\<rparr>"

lemma later_win_preferred:
  "wellFormed b5 \<and> getWinner b5 = ''L''
   \<and> win5 \<in> set (getChildBoards b5) \<and> getWinner win5 = compSymbol win5
   \<and> getWinner block5 = ''L''
   \<and> fst (getNextBestBoardState b5 Map.empty) = Some block5
   \<and> map fst (map (\<lambda>ch. getScore ch Map.empty) (getChildBoards b5))
       = [Num 96, Num (- 97), Num (- 99), Num (- 97), Num 98]"
proof -
  have w: "wellFormed b5"
    by (simp add: wellFormed_def square_def boardSize_def b5_def)
  have 1: "getWinner b5 = ''L''" by code_simp
  have 2: "win5 \<in> set (getChildBoards b5)" by code_simp
  have 3: "getWinner win5 = compSymbol win5" by code_simp
  have 4: "getWinner block5 = ''L''" by code_simp
  have 5: "fst (getNextBestBoardState b5 Map.empty) = Some block5" by code_simp
  have 6: "map fst (map (\<lambda>ch. getScore ch Map.empty) (getChildBoards b5))
       = [Num 96, Num (- 97), Num (- 99), Num (- 97), Num 98]" by code_simp
  show ?thesis using w 1 2 3 4 5 6 by simp
qed


section \<open>Calling \<^verbatim>\<open>getScore\<close> twice\<close>

lemma wellFormed_drawn: "wellFormed drawn"
  by (simp add: wellFormed_def square_def boardSize_def drawn_def)

lemma getWinner_drawn: "getWinner drawn = ''D''"
  by code_simp

lemma getScore_drawn:
  "getScore drawn Map.empty = (Num 0, [stringState drawn \<mapsto> Num 0])"
proof -
  have "forceGetScore drawn Map.empty = (Num 0, Map.empty)"
    by (rule forceGetScore_draw[OF wellFormed_drawn getWinner_drawn])
  then show ?thesis by (simp add: getScore.simps[of drawn Map.empty])
qed


text \<open>
  Claim C7 says that a second call of \<^verbatim>\<open>getScore\<close> on the same position finds the key in the
  cache and returns the stored score without calling \<^verbatim>\<open>forceGetScore\<close>. The test
  \<^verbatim>\<open>if (this.cache[stringState])\<close> is a test of truthiness, and the score \<open>0\<close> is falsy. On
  the drawn board below the first call stores \<open>0\<close> under the key; the second call reads it,
  takes it for a miss and goes through \<^verbatim>\<open>forceGetScore\<close> again.
\<close>

theorem getScore_zero_recomputed:
  "getScore drawn Map.empty = (Num 0, [stringState drawn \<mapsto> Num 0])
   \<and> \<not> truthy ([stringState drawn \<mapsto> Num 0] (stringState drawn))
   \<and> getScore drawn [stringState drawn \<mapsto> Num 0]
       = (case forceGetScore drawn [stringState drawn \<mapsto> Num 0] of
            (score, c1) \<Rightarrow> (score, c1(stringState drawn \<mapsto> score)))"
  using getScore_drawn by (simp add: getScore.simps[of drawn "[stringState drawn \<mapsto> Num 0]"])


text \<open>
  When the score is not \<open>0\<close> the second call is served from the cache: it returns the same
  score and leaves the cache as the first call left it.
\<close>

lemma getScore_twice_truthy:
  assumes "fst (getScore b c) \<noteq> Num 0"
  shows "getScore b (snd (getScore b c)) = getScore b c"
proof (cases "truthy (c (stringState b))")
  case True
  then show ?thesis by (simp add: getScore_hit[of c b])
next
  case False
  obtain score c1 where f: "forceGetScore b c = (score, c1)" by (cases "forceGetScore b c")
  have g: "getScore b c = (score, c1(stringState b \<mapsto> score))"
    using False f by (rule getScore_miss)
  then have "score \<noteq> Num 0" using assms by simp
  then have "truthy ((c1(stringState b \<mapsto> score)) (stringState b))" by simp
  then show ?thesis using g getScore_hit[of "c1(stringState b \<mapsto> score)" b] by simp
qed

text \<open>On a consistent cache the second call returns the same score, whatever the score.\<close>

lemma getScore_twice_value:
  assumes "wellFormed b" "cacheOk b c"
  shows "fst (getScore b (snd (getScore b c))) = fst (getScore b c)"
proof -
  have 1: "fst (getScore b c) = minimax b" "cacheOk b (snd (getScore b c))"
    using getScore_correct[OF assms(1) reachable_self assms(2)] by simp_all
  show ?thesis using getScore_correct[OF assms(1) reachable_self 1(2)] 1(1) by simp
qed


subsection \<open>The cache only gains keys\<close>

text \<open>
  No call removes a key from the cache: \<^verbatim>\<open>getScore\<close> stores, and nothing deletes.
\<close>

lemma mapState_grows:
  assumes "\<And>x u. x \<in> set xs \<Longrightarrow> dom u \<subseteq> dom (snd (f x u))"
  shows "dom s \<subseteq> dom (snd (mapState f xs s))"
  using assms
proof (induction xs arbitrary: s)
  case Nil
  show ?case by simp
next
  case (Cons x xs)
  obtain y s1 where f: "f x s = (y, s1)" by (cases "f x s")
  obtain ys s2 where m: "mapState f xs s1 = (ys, s2)" by (cases "mapState f xs s1")
  have "dom s \<subseteq> dom s1" using Cons.prems[of x s] f by simp
  moreover have "dom s1 \<subseteq> dom s2" using Cons.IH[of s1] Cons.prems m by simp
  ultimately show ?case by (auto simp: f m)
qed

lemma cache_grows:
  "dom c \<subseteq> dom (snd (getScore b c))"
  "dom c \<subseteq> dom (snd (forceGetScore b c))"
proof (induction b c and b c rule: getScore_forceGetScore.induct)
  case (1 b c)
  show ?case
  proof (cases "truthy (c (stringState b))")
    case True
    then show ?thesis by (simp add: getScore_hit[of c b])
  next
    case False
    obtain score c1 where f: "forceGetScore b c = (score, c1)" by (cases "forceGetScore b c")
    have "dom c \<subseteq> dom c1" using "1.IH"[OF False] f by simp
    then show ?thesis using getScore_miss[of c b, OF False f] by auto
  qed
next
  case (2 b c)
  consider (leaf) "getWinner b = compSymbol b \<or> getWinner b = humanSymbol b \<or> getWinner b = ''D''"
    | (node) "getWinner b \<noteq> compSymbol b" "getWinner b \<noteq> humanSymbol b" "getWinner b \<noteq> ''D''"
    by blast
  then show ?case
  proof cases
    case leaf
    then have "snd (forceGetScore b c) = c" by (auto simp: forceGetScore.simps[of b c])
    then show ?thesis by simp
  next
    case node
    have s: "snd (forceGetScore b c) = snd (mapState getScore (getChildBoards b) c)"
      using node by (simp add: forceGetScore.simps[of b c] split: prod.splits)
    have "\<And>x u. x \<in> set (getChildBoards b) \<Longrightarrow> dom u \<subseteq> dom (snd (getScore x u))"
      using "2.IH"(1)[OF node] "2.IH"(2)[OF node] by (cases "isCompTurn b") blast+
    then show ?thesis unfolding s by (rule mapState_grows)
  qed
qed

lemma findState_grows:
  assumes "\<And>x u. x \<in> set xs \<Longrightarrow> dom u \<subseteq> dom (snd (p x u))"
  shows "dom s \<subseteq> dom (snd (findState p xs s))"
  using assms
proof (induction xs arbitrary: s)
  case Nil
  show ?case by simp
next
  case (Cons x xs)
  obtain found s1 where f: "p x s = (found, s1)" by (cases "p x s")
  have 1: "dom s \<subseteq> dom s1" using Cons.prems[of x s] f by simp
  have 2: "dom s1 \<subseteq> dom (snd (findState p xs s1))" using Cons.IH[of s1] Cons.prems by simp
  show ?case using 1 2 by (cases found) (auto simp: f)
qed

lemma sameScore_grows: "dom u \<subseteq> dom (snd (sameScore b x u))"
proof -
  obtain s1 c1 where g1: "getScore x u = (s1, c1)" by (cases "getScore x u")
  obtain s2 c2 where g2: "getScore b c1 = (s2, c2)" by (cases "getScore b c1")
  have "dom u \<subseteq> dom c1" "dom c1 \<subseteq> dom c2"
    using cache_grows(1)[of u x] cache_grows(1)[of c1 b] g1 g2 by simp_all
  then show ?thesis by (auto simp: sameScore_def g1 g2)
qed

lemma getNextBestBoardState_grows: "dom c \<subseteq> dom (snd (getNextBestBoardState b c))"
  using findState_grows[of "getChildBoards b" "sameScore b" c] sameScore_grows
  by (simp add: getNextBestBoardState_def)

section \<open>Queries leave the boards of the store unchanged\<close>

subsection \<open>Well-formed stores\<close>

text \<open>
  In a store built by the program every address in use is below \<open>nxt\<close>, a board points to
  an allocated array of rows whose length is its \<^verbatim>\<open>boardSize\<close>, its cache exists, its
  \<^verbatim>\<open>humanSymbol\<close> is the one the constructor derived, and an array of rows points to allocated
  rows. \<open>preserved h h'\<close> says that every board, array of rows and row allocated in
  \<open>h\<close> is the same in \<open>h'\<close>, and that the same cache objects exist.
\<close>

definition valid :: "heap \<Rightarrow> bool" where
  "valid h =
     ((\<forall>a. a \<in> dom (boards h) \<union> dom (grids h) \<union> dom (rowsOf h) \<longrightarrow> a < nxt h)
      \<and> (\<forall>p ob. boards h p = Some ob \<longrightarrow>
            (\<exists>g. grids h (o_state ob) = Some g \<and> o_boardSize ob = length g)
            \<and> o_cache ob \<in> dom (caches h)
            \<and> o_humanSymbol ob = (if o_compSymbol ob = ''X'' then ''O'' else ''X''))
      \<and> (\<forall>g rs. grids h g = Some rs \<longrightarrow> set rs \<subseteq> dom (rowsOf h)))"

definition preserved :: "heap \<Rightarrow> heap \<Rightarrow> bool" where
  "preserved h h' =
     (nxt h \<le> nxt h'
      \<and> (\<forall>a<nxt h. boards h' a = boards h a \<and> grids h' a = grids h a \<and> rowsOf h' a = rowsOf h a)
      \<and> dom (caches h') = dom (caches h))"


text \<open>
  \<open>isChild h p h' k c\<close>: in \<open>h'\<close> the reference \<open>k\<close> is a board allocated after
  \<open>h\<close> that holds the value \<open>c\<close>, shares the cache reference of \<open>p\<close>, and whose
  array of rows and rows are all allocated after \<open>h\<close> and pairwise distinct: a deep copy.
\<close>

definition isChild :: "heap \<Rightarrow> ref \<Rightarrow> heap \<Rightarrow> ref \<Rightarrow> board \<Rightarrow> bool" where
  "isChild h0 p h' k c =
     (nxt h0 \<le> k \<and> k \<in> dom (boards h') \<and> absBoard h' k = c
      \<and> o_cache (this h' k) = o_cache (this h0 p)
      \<and> nxt h0 \<le> o_state (this h' k)
      \<and> (\<exists>rs. grids h' (o_state (this h' k)) = Some rs \<and> distinct rs \<and> (\<forall>r \<in> set rs. nxt h0 \<le> r)))"


definition childHeap ::
  "heap \<Rightarrow> boardObj \<Rightarrow> ref list \<Rightarrow> nat \<Rightarrow> nat \<Rightarrow> string \<Rightarrow> bool \<Rightarrow> ref \<Rightarrow> heap \<Rightarrow> bool" where
  "childHeap h ob g y x mark t q h2 =
     (q = Suc (nxt h + length g)
      \<and> nxt h2 = Suc (Suc (nxt h + length g))
      \<and> boards h2 = (boards h)(q \<mapsto> ob\<lparr>o_state := nxt h + length g, o_isCompTurn := t\<rparr>)
      \<and> grids h2 = (grids h)(nxt h + length g \<mapsto> [nxt h..<nxt h + length g])
      \<and> caches h2 = caches h
      \<and> (\<forall>a. rowsOf h2 a =
            (if a = nxt h + y then Some ((the (rowsOf h (g ! y)))[x := mark])
             else if nxt h \<le> a \<and> a < nxt h + length g
             then Some (the (rowsOf h (g ! (a - nxt h))))
             else rowsOf h a)))"


definition scored ::
  "(board \<Rightarrow> cache \<Rightarrow> jsnum \<times> cache) \<Rightarrow> ref \<Rightarrow> heap \<Rightarrow> jsnum \<Rightarrow> heap \<Rightarrow> bool" where
  "scored f p h v h' =
     (valid h' \<and> preserved h h'
      \<and> (v, the (caches h' (o_cache (this h p))))
           = f (absBoard h p) (the (caches h (o_cache (this h p))))
      \<and> (\<forall>a. a \<noteq> o_cache (this h p) \<longrightarrow> caches h' a = caches h a))"


text \<open>A store holding the board of the scenario at address 4, with an empty cache.\<close>

definition heap0 :: heap where
  "heap0 = \<lparr>boards = [4 \<mapsto> \<lparr>o_state = 3, o_compSymbol = ''X'', o_isCompTurn = True, o_cache = 0,
                              o_boardSize = 3, o_humanSymbol = ''O''\<rparr>],
            grids = [3 \<mapsto> [0, 1, 2]],
            rowsOf = [0 \<mapsto> [''X'', ''E'', ''E''], 1 \<mapsto> [''E'', ''X'', ''E''], 2 \<mapsto> [''O'', ''O'', ''E'']],
            caches = [0 \<mapsto> Map.empty],
            nxt = 5\<rparr>"

subsection \<open>Cloning and the children on the store\<close>

lemma preserved_refl: "preserved h h"
  by (simp add: preserved_def)

lemma preserved_trans: "preserved h1 h2 \<Longrightarrow> preserved h2 h3 \<Longrightarrow> preserved h1 h3"
  by (simp add: preserved_def)

lemma valid_board:
  assumes "valid h" "boards h p = Some ob"
  shows "p < nxt h" "\<exists>g. grids h (o_state ob) = Some g \<and> o_boardSize ob = length g"
    "o_cache ob \<in> dom (caches h)"
    "o_humanSymbol ob = (if o_compSymbol ob = ''X'' then ''O'' else ''X'')"
  using assms unfolding valid_def by blast+

lemma valid_grid:
  assumes "valid h" "grids h g = Some rs"
  shows "g < nxt h" "\<forall>r \<in> set rs. r < nxt h \<and> r \<in> dom (rowsOf h)"
  using assms unfolding valid_def by blast+

lemma preserved_this:
  assumes "valid h" "preserved h h'" "boards h p = Some ob"
  shows "boards h' p = Some ob" "this h' p = this h p" "gridOf h' p = gridOf h p"
    "absBoard h' p = absBoard h p"
proof -
  have p: "p < nxt h" using valid_board(1)[OF assms(1,3)] .
  show b: "boards h' p = Some ob" using assms(2,3) p by (simp add: preserved_def)
  show t: "this h' p = this h p" using b assms(3) by (simp add: this_def)
  obtain g where g: "grids h (o_state ob) = Some g"
    using valid_board(2)[OF assms(1,3)] by blast
  have g': "grids h' (o_state ob) = Some g"
    using valid_grid(1)[OF assms(1) g] assms(2) g by (simp add: preserved_def)
  have "\<forall>r \<in> set g. rowsOf h' r = rowsOf h r"
    using valid_grid(2)[OF assms(1) g] assms(2) by (simp add: preserved_def)
  then show gr: "gridOf h' p = gridOf h p"
    using g g' assms(3) b by (simp add: gridOf_def this_def)
  show "absBoard h' p = absBoard h p" by (simp add: absBoard_def t gr)
qed

lemma mapState_copyRow:
  assumes "\<forall>r \<in> set rs. r < nxt h"
  shows "\<exists>h1. mapState copyRow rs h = ([nxt h..<nxt h + length rs], h1)
           \<and> nxt h1 = nxt h + length rs \<and> boards h1 = boards h \<and> grids h1 = grids h
           \<and> caches h1 = caches h
           \<and> (\<forall>a. rowsOf h1 a = (if nxt h \<le> a \<and> a < nxt h + length rs
                                   then Some (the (rowsOf h (rs ! (a - nxt h))))
                                   else rowsOf h a))"
  using assms
proof (induction rs arbitrary: h)
  case Nil
  show ?case by auto
next
  case (Cons r rs)
  let ?h0 = "h\<lparr>rowsOf := (rowsOf h)(nxt h \<mapsto> the (rowsOf h r)), nxt := Suc (nxt h)\<rparr>"
  have c: "copyRow r h = (nxt h, ?h0)" by (simp add: copyRow_def newRow_def)
  have "\<forall>r \<in> set rs. r < nxt ?h0" using Cons.prems by auto
  from Cons.IH[OF this] obtain h1 where
    m: "mapState copyRow rs ?h0 = ([nxt ?h0..<nxt ?h0 + length rs], h1)"
    and n: "nxt h1 = nxt ?h0 + length rs" and b: "boards h1 = boards ?h0"
    and g: "grids h1 = grids ?h0" and ca: "caches h1 = caches ?h0"
    and r: "\<forall>a. rowsOf h1 a = (if nxt ?h0 \<le> a \<and> a < nxt ?h0 + length rs
                                   then Some (the (rowsOf ?h0 (rs ! (a - nxt ?h0))))
                                   else rowsOf ?h0 a)"
    by blast
  have old: "\<And>j. j < length rs \<Longrightarrow> rowsOf ?h0 (rs ! j) = rowsOf h (rs ! j)"
  proof -
    fix j assume "j < length rs"
    then have "rs ! j \<in> set rs" by simp
    then have "rs ! j < nxt h" using Cons.prems by auto
    then show "rowsOf ?h0 (rs ! j) = rowsOf h (rs ! j)" by simp
  qed
  have rows: "\<forall>a. rowsOf h1 a = (if nxt h \<le> a \<and> a < nxt h + length (r # rs)
                                   then Some (the (rowsOf h ((r # rs) ! (a - nxt h))))
                                   else rowsOf h a)"
  proof
    fix a
    consider "a < nxt h" | "a = nxt h" | "nxt h < a" "a < nxt h + length (r # rs)"
      | "nxt h + length (r # rs) \<le> a" by linarith
    then show "rowsOf h1 a = (if nxt h \<le> a \<and> a < nxt h + length (r # rs)
                                   then Some (the (rowsOf h ((r # rs) ! (a - nxt h))))
                                   else rowsOf h a)"
    proof cases
      case 1 then show ?thesis using r by simp
    next
      case 2 then show ?thesis using r by simp
    next
      case 3
      then have j: "a - Suc (nxt h) < length rs" and e: "a - nxt h = Suc (a - Suc (nxt h))"
        by auto
      show ?thesis using 3 r old[OF j] by (simp add: e)
    next
      case 4 then show ?thesis using r by simp
    qed
  qed
  have u: "[nxt h..<Suc (nxt h + length rs)] = nxt h # [Suc (nxt h)..<Suc (nxt h + length rs)]"
    by (rule upt_conv_Cons) simp
  have ms: "mapState copyRow (r # rs) h = (nxt h # [Suc (nxt h)..<Suc (nxt h + length rs)], h1)"
    using m by (simp add: c del: upt_Suc)
  show ?case
  proof (intro exI[of _ h1] conjI)
    show "mapState copyRow (r # rs) h = ([nxt h..<nxt h + length (r # rs)], h1)"
      using ms u by (simp del: upt_Suc)
    show "nxt h1 = nxt h + length (r # rs)" using n by simp
    show "boards h1 = boards h" using b by simp
    show "grids h1 = grids h" using g by simp
    show "caches h1 = caches h" using ca by simp
    show "\<forall>a. rowsOf h1 a = (if nxt h \<le> a \<and> a < nxt h + length (r # rs)
                                   then Some (the (rowsOf h ((r # rs) ! (a - nxt h))))
                                   else rowsOf h a)"
      by (rule rows)
  qed
qed

lemma h_clone_eq:
  assumes v: "valid h" and ob: "boards h p = Some ob" and g: "grids h (o_state ob) = Some g"
  shows "\<exists>h'. h_clone p h = (Suc (nxt h + length g), h')
           \<and> nxt h' = Suc (Suc (nxt h + length g))
           \<and> boards h' = (boards h)(Suc (nxt h + length g) \<mapsto> ob\<lparr>o_state := nxt h + length g\<rparr>)
           \<and> grids h' = (grids h)(nxt h + length g \<mapsto> [nxt h..<nxt h + length g])
           \<and> caches h' = caches h
           \<and> (\<forall>a. rowsOf h' a = (if nxt h \<le> a \<and> a < nxt h + length g
                                   then Some (the (rowsOf h (g ! (a - nxt h))))
                                   else rowsOf h a))"
proof -
  have "\<forall>r \<in> set g. r < nxt h" using valid_grid(2)[OF v g] by blast
  from mapState_copyRow[OF this] obtain h1 where
    m: "mapState copyRow g h = ([nxt h..<nxt h + length g], h1)"
    and n: "nxt h1 = nxt h + length g" and b: "boards h1 = boards h"
    and gr: "grids h1 = grids h" and ca: "caches h1 = caches h"
    and r: "\<forall>a. rowsOf h1 a = (if nxt h \<le> a \<and> a < nxt h + length g
                                   then Some (the (rowsOf h (g ! (a - nxt h))))
                                   else rowsOf h a)"
    by blast
  let ?h2 = "h1\<lparr>grids := (grids h1)(nxt h1 \<mapsto> [nxt h..<nxt h + length g]), nxt := Suc (nxt h1)\<rparr>"
  have t2: "this ?h2 p = ob" using ob b by (simp add: this_def)
  have size: "o_boardSize ob = length g" using valid_board(2)[OF v ob] g by simp
  have hum: "o_humanSymbol ob = (if o_compSymbol ob = ''X'' then ''O'' else ''X'')"
    using valid_board(4)[OF v ob] .
  have rec: "\<lparr>o_state = nxt h1, o_compSymbol = o_compSymbol ob, o_isCompTurn = o_isCompTurn ob,
             o_cache = o_cache ob, o_boardSize = length [nxt h..<nxt h + length g],
             o_humanSymbol = (if o_compSymbol ob = ''X'' then ''O'' else ''X'')\<rparr>
           = ob\<lparr>o_state := nxt h + length g\<rparr>"
    using size hum n by (cases ob) simp
  let ?h3 = "?h2\<lparr>boards := (boards ?h2)(Suc (nxt h1) \<mapsto> ob\<lparr>o_state := nxt h + length g\<rparr>),
                 nxt := Suc (Suc (nxt h1))\<rparr>"
  have c: "h_clone p h = (Suc (nxt h1), ?h3)"
    using rec by (simp add: h_clone_def this_def ob g m newGrid_def newBoard_def t2[unfolded this_def] b
        del: upt_Suc)
  show ?thesis
    unfolding c using n b gr ca r by (intro exI[of _ ?h3] conjI) (simp_all del: upt_Suc)
qed

lemma child_heap:
  assumes v: "valid h" and ob: "boards h p = Some ob" and g: "grids h (o_state ob) = Some g"
    and y: "y < length g" and cl: "h_clone p h = (q, h1)"
  shows "childHeap h ob g y x mark t q (setTurn q t (setCell q y x mark h1))"
proof -
  from h_clone_eq[OF v ob g] cl have q: "q = Suc (nxt h + length g)"
    and n: "nxt h1 = Suc (Suc (nxt h + length g))"
    and b: "boards h1 = (boards h)(Suc (nxt h + length g) \<mapsto> ob\<lparr>o_state := nxt h + length g\<rparr>)"
    and gr: "grids h1 = (grids h)(nxt h + length g \<mapsto> [nxt h..<nxt h + length g])"
    and ca: "caches h1 = caches h"
    and r: "\<forall>a. rowsOf h1 a = (if nxt h \<le> a \<and> a < nxt h + length g
                                   then Some (the (rowsOf h (g ! (a - nxt h))))
                                   else rowsOf h a)"
    by auto
  have t1: "this h1 q = ob\<lparr>o_state := nxt h + length g\<rparr>" by (simp add: this_def b q)
  have row: "the (grids h1 (o_state (this h1 q))) ! y = nxt h + y"
    using y by (simp add: t1 gr del: upt_Suc)
  have ry: "the (rowsOf h1 (nxt h + y)) = the (rowsOf h (g ! y))" using r y by simp
  let ?h1' = "setCell q y x mark h1"
  have sc: "?h1' = h1\<lparr>rowsOf := (rowsOf h1)(nxt h + y \<mapsto> (the (rowsOf h (g ! y)))[x := mark])\<rparr>"
    by (simp add: setCell_def Let_def row ry)
  have t1': "this ?h1' q = ob\<lparr>o_state := nxt h + length g\<rparr>"
    unfolding sc by (simp add: this_def b q)
  have st: "setTurn q t ?h1'
            = ?h1'\<lparr>boards := (boards ?h1')(q \<mapsto> ob\<lparr>o_state := nxt h + length g, o_isCompTurn := t\<rparr>)\<rparr>"
    by (simp add: setTurn_def t1')
  have e: "setTurn q t (setCell q y x mark h1)
           = h1\<lparr>rowsOf := (rowsOf h1)(nxt h + y \<mapsto> (the (rowsOf h (g ! y)))[x := mark]),
                boards := (boards h1)(q \<mapsto> ob\<lparr>o_state := nxt h + length g, o_isCompTurn := t\<rparr>)\<rparr>"
    by (subst st, subst sc, subst sc) simp
  show ?thesis
    unfolding childHeap_def e using q n b gr ca r by simp
qed

lemma childHeap_props:
  assumes v: "valid h" and ob: "boards h p = Some ob" and g: "grids h (o_state ob) = Some g"
    and y: "y < length g" and c: "childHeap h ob g y x mark t q h2"
  shows "valid h2" "preserved h h2" "caches h2 = caches h" "nxt h \<le> q" "q < nxt h2"
    "this h2 q = ob\<lparr>o_state := nxt h + length g, o_isCompTurn := t\<rparr>"
    "gridOf h2 q = (gridOf h p)[y := (gridOf h p ! y)[x := mark]]"
    "q \<in> dom (boards h2)"
    "grids h2 (nxt h + length g) = Some [nxt h..<nxt h + length g]"
proof -
  from c have q: "q = Suc (nxt h + length g)"
    and n: "nxt h2 = Suc (Suc (nxt h + length g))"
    and b: "boards h2 = (boards h)(q \<mapsto> ob\<lparr>o_state := nxt h + length g, o_isCompTurn := t\<rparr>)"
    and gr: "grids h2 = (grids h)(nxt h + length g \<mapsto> [nxt h..<nxt h + length g])"
    and ca: "caches h2 = caches h"
    and r: "\<And>a. rowsOf h2 a =
            (if a = nxt h + y then Some ((the (rowsOf h (g ! y)))[x := mark])
             else if nxt h \<le> a \<and> a < nxt h + length g
             then Some (the (rowsOf h (g ! (a - nxt h))))
             else rowsOf h a)"
    unfolding childHeap_def by blast+
  have dom_lt: "\<And>a. a \<in> dom (boards h) \<union> dom (grids h) \<union> dom (rowsOf h) \<Longrightarrow> a < nxt h"
    using v unfolding valid_def by blast
  have rows_old: "\<And>a. a < nxt h \<Longrightarrow> rowsOf h2 a = rowsOf h a" using r by simp
  have rows_dom: "\<And>a. a \<in> dom (rowsOf h2) \<Longrightarrow> a < nxt h2"
  proof -
    fix a assume a: "a \<in> dom (rowsOf h2)"
    show "a < nxt h2"
    proof (cases "a < nxt h + length g")
      case True then show ?thesis using n by simp
    next
      case False
      then have "rowsOf h2 a = rowsOf h a" using r y by simp
      then have "a \<in> dom (rowsOf h)" using a by (simp add: dom_def)
      then show ?thesis using dom_lt[of a] n by simp
    qed
  qed
  have rows_sub: "\<And>a. a \<in> dom (rowsOf h) \<Longrightarrow> a \<in> dom (rowsOf h2)"
    using rows_old dom_lt by (auto simp: dom_def)
  show v2: "valid h2"
    unfolding valid_def
  proof (intro conjI allI impI)
    fix a assume "a \<in> dom (boards h2) \<union> dom (grids h2) \<union> dom (rowsOf h2)"
    then consider "a \<in> dom (boards h)" | "a = q" | "a \<in> dom (grids h)" | "a = nxt h + length g"
      | "a \<in> dom (rowsOf h2)"
      by (auto simp: b gr split: if_splits)
    then show "a < nxt h2"
      using dom_lt[of a] rows_dom[of a] n q by cases auto
  next
    fix p' ob' assume p': "boards h2 p' = Some ob'"
    show "\<exists>g'. grids h2 (o_state ob') = Some g' \<and> o_boardSize ob' = length g'"
    proof (cases "p' = q")
      case True
      then have "ob' = ob\<lparr>o_state := nxt h + length g, o_isCompTurn := t\<rparr>" using p' b by simp
      then show ?thesis using valid_board(2)[OF v ob] g by (simp add: gr)
    next
      case False
      then have o: "boards h p' = Some ob'" using p' b by simp
      from valid_board(2)[OF v o] obtain g' where g': "grids h (o_state ob') = Some g'"
        "o_boardSize ob' = length g'" by blast
      have "o_state ob' < nxt h" using dom_lt[of "o_state ob'"] g' by (auto simp: dom_def)
      then show ?thesis using g' by (simp add: gr)
    qed
    show "o_cache ob' \<in> dom (caches h2)"
      using p' valid_board(3)[OF v ob] valid_board(3)[OF v, of p' ob'] b ca
      by (cases "p' = q") auto
    show "o_humanSymbol ob' = (if o_compSymbol ob' = ''X'' then ''O'' else ''X'')"
      using p' valid_board(4)[OF v ob] valid_board(4)[OF v, of p' ob'] b
      by (cases "p' = q") auto
  next
    fix g' rs assume g': "grids h2 g' = Some rs"
    show "set rs \<subseteq> dom (rowsOf h2)"
    proof
      fix x' assume x': "x' \<in> set rs"
      show "x' \<in> dom (rowsOf h2)"
      proof (cases "g' = nxt h + length g")
        case True
        then have "rs = [nxt h..<nxt h + length g]" using g' gr by simp
        then have "nxt h \<le> x'" "x' < nxt h + length g" using x' by auto
        then show ?thesis using r[of x'] by (auto simp: dom_def)
      next
        case False
        then have "grids h g' = Some rs" using g' gr by simp
        then have "x' \<in> dom (rowsOf h)" using valid_grid(2)[OF v] x' by blast
        then show ?thesis by (rule rows_sub)
      qed
    qed
  qed
  show "preserved h h2"
    unfolding preserved_def using n q b gr ca rows_old by auto
  show "caches h2 = caches h" by (rule ca)
  show "nxt h \<le> q" using q by simp
  show "q < nxt h2" using q n by simp
  show t2: "this h2 q = ob\<lparr>o_state := nxt h + length g, o_isCompTurn := t\<rparr>"
    by (simp add: this_def b)
  have gp: "gridOf h p = map (\<lambda>r. the (rowsOf h r)) g" by (simp add: gridOf_def this_def ob g)
  have gq: "gridOf h2 q = map (\<lambda>r. the (rowsOf h2 r)) [nxt h..<nxt h + length g]"
    by (simp add: gridOf_def t2 gr del: upt_Suc)
  show "gridOf h2 q = (gridOf h p)[y := (gridOf h p ! y)[x := mark]]"
  proof (rule nth_equalityI)
    show "length (gridOf h2 q) = length ((gridOf h p)[y := (gridOf h p ! y)[x := mark]])"
      by (simp add: gp gq)
    fix i assume "i < length (gridOf h2 q)"
    then have i: "i < length g" by (simp add: gq)
    show "gridOf h2 q ! i = (gridOf h p)[y := (gridOf h p ! y)[x := mark]] ! i"
      using i y r[of "nxt h + i"] by (simp add: gp gq nth_list_update del: upt_Suc)
  qed
  show "q \<in> dom (boards h2)" by (simp add: b)
  show "grids h2 (nxt h + length g) = Some [nxt h..<nxt h + length g]" by (simp add: gr)
qed

lemma isChild_preserved:
  assumes v: "valid h'" and pr: "preserved h' h''" and c: "isChild h0 p h' k c"
  shows "isChild h0 p h'' k c"
proof -
  from c obtain ob where ob: "boards h' k = Some ob" by (auto simp: isChild_def)
  have t: "this h' k = ob" using ob by (simp add: this_def)
  from c t obtain rs where rs: "grids h' (o_state ob) = Some rs" by (auto simp: isChild_def)
  have "o_state ob < nxt h'" using valid_grid(1)[OF v rs] .
  then have g: "grids h'' (o_state ob) = grids h' (o_state ob)" using pr by (simp add: preserved_def)
  show ?thesis
    using c preserved_this[OF v pr ob] g t by (auto simp: isChild_def)
qed

lemma fold_visit:
  assumes v0: "valid h0" and ob: "boards h0 p = Some ob" and g: "grids h0 (o_state ob) = Some g"
  shows "\<forall>(y, x) \<in> set cs. y < length g \<Longrightarrow> valid h \<Longrightarrow> preserved h0 h \<Longrightarrow> caches h = caches h0
    \<Longrightarrow> \<exists>kids h'. fold (visit p mark) cs (acc, h) = (acc @ kids, h')
          \<and> valid h' \<and> preserved h h' \<and> caches h' = caches h
          \<and> list_all2 (isChild h0 p h') kids
               (map (\<lambda>(y, x). place (absBoard h0 p) y x mark (\<not> o_isCompTurn ob))
                  (filter (\<lambda>(y, x). at (state (absBoard h0 p) ! y) x = Some ''E'') cs))"
proof (induction cs arbitrary: acc h)
  case Nil
  show ?case using Nil.prems by (simp add: preserved_refl)
next
  case (Cons yx cs)
  obtain y x where yx: "yx = (y, x)" by (cases yx)
  have y: "y < length g" and rest: "\<forall>(y, x) \<in> set cs. y < length g"
    using Cons.prems(1) yx by auto
  note v = Cons.prems(2) and pr = Cons.prems(3) and ca = Cons.prems(4)
  have obh: "boards h p = Some ob" and gp: "gridOf h p = gridOf h0 p"
    using preserved_this[OF v0 pr ob] by auto
  have "o_state ob < nxt h0" using valid_grid(1)[OF v0 g] .
  then have gh: "grids h (o_state ob) = Some g" using pr g by (simp add: preserved_def)
  have st: "state (absBoard h0 p) = gridOf h0 p" by (simp add: absBoard_def)
  show ?case
  proof (cases "at (gridOf h0 p ! y) x = Some ''E''")
    case False
    then have "visit p mark yx (acc, h) = (acc, h)" by (simp add: visit_def yx gp)
    then show ?thesis
      using Cons.IH[OF rest v pr ca, of acc] False by (simp add: yx st)
  next
    case True
    obtain q h1 where cl: "h_clone p h = (q, h1)" by (cases "h_clone p h")
    let ?t = "\<not> o_isCompTurn ob"
    let ?h2 = "setTurn q ?t (setCell q y x mark h1)"
    from h_clone_eq[OF v obh gh] cl have "q = Suc (nxt h + length g)"
      "boards h1 = (boards h)(Suc (nxt h + length g) \<mapsto> ob\<lparr>o_state := nxt h + length g\<rparr>)"
      by auto
    moreover have "p < nxt h" using valid_board(1)[OF v obh] .
    ultimately have t1: "this h1 p = ob" using obh by (simp add: this_def)
    have vis: "visit p mark yx (acc, h) = (acc @ [q], ?h2)"
      using True by (simp add: visit_def yx gp cl t1)
    have ch: "childHeap h ob g y x mark ?t q ?h2" by (rule child_heap[OF v obh gh y cl])
    note props = childHeap_props[OF v obh gh y ch]
    have pr2: "preserved h0 ?h2" using preserved_trans[OF pr props(2)] .
    have ca2: "caches ?h2 = caches h0" using props(3) ca by simp
    from Cons.IH[OF rest props(1) pr2 ca2, of "acc @ [q]"] obtain kids h' where
      f: "fold (visit p mark) cs (acc @ [q], ?h2) = ((acc @ [q]) @ kids, h')"
      and v': "valid h'" and pr': "preserved ?h2 h'" and ca': "caches h' = caches ?h2"
      and all: "list_all2 (isChild h0 p h') kids
               (map (\<lambda>(y, x). place (absBoard h0 p) y x mark ?t)
                  (filter (\<lambda>(y, x). at (state (absBoard h0 p) ! y) x = Some ''E'') cs))"
      by blast
    have n0: "nxt h0 \<le> nxt h" using pr by (simp add: preserved_def)
    have t0: "this h0 p = ob" using ob by (simp add: this_def)
    have abs: "absBoard ?h2 q = place (absBoard h0 p) y x mark ?t"
      using props(6,7) gp by (simp add: absBoard_def place_def t0)
    have "isChild h0 p ?h2 q (place (absBoard h0 p) y x mark ?t)"
      unfolding isChild_def
    proof (intro conjI)
      show "nxt h0 \<le> q" using n0 props(4) by simp
      show "q \<in> dom (boards ?h2)" by (rule props(8))
      show "absBoard ?h2 q = place (absBoard h0 p) y x mark ?t" by (rule abs)
      show "o_cache (this ?h2 q) = o_cache (this h0 p)" using props(6) ob by (simp add: this_def)
      show "nxt h0 \<le> o_state (this ?h2 q)" using props(6) n0 by simp
      show "\<exists>rs. grids ?h2 (o_state (this ?h2 q)) = Some rs \<and> distinct rs \<and> (\<forall>r \<in> set rs. nxt h0 \<le> r)"
        using n0 props(9) by (simp add: props(6) del: upt_Suc)
    qed
    then have kq: "isChild h0 p h' q (place (absBoard h0 p) y x mark ?t)"
      using isChild_preserved[OF props(1) pr'] by blast
    show ?thesis
    proof (intro exI[of _ "q # kids"] exI[of _ h'] conjI)
      show "fold (visit p mark) (yx # cs) (acc, h) = (acc @ q # kids, h')" using vis f by simp
      show "valid h'" by (rule v')
      show "preserved h h'" using preserved_trans[OF props(2) pr'] .
      show "caches h' = caches h" using ca' props(3) by simp
      show "list_all2 (isChild h0 p h') (q # kids)
               (map (\<lambda>(y, x). place (absBoard h0 p) y x mark ?t)
                  (filter (\<lambda>(y, x). at (state (absBoard h0 p) ! y) x = Some ''E'') (yx # cs)))"
        using True kq all by (simp add: yx st)
    qed
  qed
qed

lemma h_getChildBoards_post:
  assumes v: "valid h" and ob: "boards h p = Some ob"
  shows "\<exists>kids h'. h_getChildBoards p h = (kids, h') \<and> valid h' \<and> preserved h h'
           \<and> caches h' = caches h
           \<and> list_all2 (isChild h p h') kids (getChildBoards (absBoard h p))"
proof -
  obtain g where g: "grids h (o_state ob) = Some g" and size: "o_boardSize ob = length g"
    using valid_board(2)[OF v ob] by blast
  let ?b = "absBoard h p"
  have t: "this h p = ob" using ob by (simp add: this_def)
  have bs: "boardSize ?b = length g" by (simp add: boardSize_def absBoard_def gridOf_def t g)
  have hum: "o_humanSymbol ob = humanSymbol ?b"
    using valid_board(4)[OF v ob] by (simp add: humanSymbol_def absBoard_def t)
  let ?mark = "if o_isCompTurn ob then o_compSymbol ob else o_humanSymbol ob"
  have mark: "?mark = playerSymbol ?b"
    using hum by (simp add: playerSymbol_def absBoard_def t humanSymbol_def)
  have turn: "o_isCompTurn ob = isCompTurn ?b" by (simp add: absBoard_def t)
  let ?cs = "List.product [0..<length g] [0..<length g]"
  have "\<forall>(y, x) \<in> set ?cs. y < length g" by auto
  from fold_visit[OF v ob g this v preserved_refl refl, of ?mark "[]"]
  obtain kids h' where f: "fold (visit p ?mark) ?cs ([], h) = (kids, h')"
    and p: "valid h'" "preserved h h'" "caches h' = caches h"
    and all: "list_all2 (isChild h p h') kids
               (map (\<lambda>(y, x). place ?b y x ?mark (\<not> o_isCompTurn ob))
                  (filter (\<lambda>(y, x). at (state ?b ! y) x = Some ''E'') ?cs))"
    by auto
  have "h_getChildBoards p h = (kids, h')"
    using f unfolding h_getChildBoards_def Let_def t size .
  moreover have "getChildBoards ?b = map (\<lambda>(y, x). place ?b y x ?mark (\<not> o_isCompTurn ob))
                  (filter (\<lambda>(y, x). at (state ?b ! y) x = Some ''E'') ?cs)"
    by (simp only: getChildBoards_emptyCells emptyCells_def bs mark[symmetric] turn[symmetric])
  ultimately show ?thesis using p all by simp
qed

subsection \<open>Scores and moves on the store\<close>

lemma mapStateOpt_scores:
  assumes IH: "\<And>k hk ob. valid hk \<Longrightarrow> boards hk k = Some ob \<Longrightarrow> depth (absBoard hk k) < n
                 \<Longrightarrow> \<exists>v h'. f k hk = Some (v, h') \<and> scored getScore k hk v h'"
    and v1: "valid h1"
  shows "list_all2 (\<lambda>k c. isChild h p h1 k c \<and> depth c < n) kids cs
         \<Longrightarrow> valid hk \<Longrightarrow> preserved h1 hk
         \<Longrightarrow> \<exists>scores h'. mapStateOpt f kids hk = Some (scores, h') \<and> valid h' \<and> preserved hk h'
               \<and> (scores, the (caches h' (o_cache (this h p))))
                    = mapState getScore cs (the (caches hk (o_cache (this h p))))
               \<and> (\<forall>a. a \<noteq> o_cache (this h p) \<longrightarrow> caches h' a = caches hk a)"
proof (induction kids cs arbitrary: hk rule: list_all2_induct)
  case Nil
  show ?case using Nil by (simp add: preserved_refl)
next
  case (Cons k kids c cs)
  let ?cr = "o_cache (this h p)"
  have ck: "isChild h p hk k c"
    using isChild_preserved[OF v1 Cons.prems(2)] Cons.hyps(1) by blast
  then obtain ob where ob: "boards hk k = Some ob" and abs: "absBoard hk k = c"
    and cr: "o_cache (this hk k) = ?cr"
    by (auto simp: isChild_def)
  have "depth (absBoard hk k) < n" using Cons.hyps(1) abs by simp
  from IH[OF Cons.prems(1) ob this] obtain v h' where
    f: "f k hk = Some (v, h')" and s: "scored getScore k hk v h'" by blast
  from s have v': "valid h'" and pr': "preserved hk h'"
    and g: "(v, the (caches h' ?cr)) = getScore c (the (caches hk ?cr))"
    and oth: "\<forall>a. a \<noteq> ?cr \<longrightarrow> caches h' a = caches hk a"
    by (simp_all add: scored_def abs cr)
  from Cons.IH[OF v' preserved_trans[OF Cons.prems(2) pr']] obtain scores h'' where
    m: "mapStateOpt f kids h' = Some (scores, h'')" and v'': "valid h''"
    and pr'': "preserved h' h''"
    and ms: "(scores, the (caches h'' ?cr)) = mapState getScore cs (the (caches h' ?cr))"
    and oth': "\<forall>a. a \<noteq> ?cr \<longrightarrow> caches h'' a = caches h' a"
    by blast
  show ?case
  proof (intro exI[of _ "v # scores"] exI[of _ h''] conjI)
    show "mapStateOpt f (k # kids) hk = Some (v # scores, h'')" by (simp add: f m)
    show "valid h''" by (rule v'')
    show "preserved hk h''" by (rule preserved_trans[OF pr' pr''])
    show "(v # scores, the (caches h'' ?cr)) = mapState getScore (c # cs) (the (caches hk ?cr))"
      using g[symmetric] ms[symmetric] by simp
    show "\<forall>a. a \<noteq> ?cr \<longrightarrow> caches h'' a = caches hk a"
      using oth oth' by simp
  qed
qed

lemma abs_fields:
  assumes v: "valid h" and ob: "boards h p = Some ob"
  shows "this h p = ob" "o_compSymbol ob = compSymbol (absBoard h p)"
    "o_humanSymbol ob = humanSymbol (absBoard h p)"
    "o_isCompTurn ob = isCompTurn (absBoard h p)"
proof -
  show t: "this h p = ob" using ob by (simp add: this_def)
  show "o_compSymbol ob = compSymbol (absBoard h p)" by (simp add: absBoard_def t)
  show "o_humanSymbol ob = humanSymbol (absBoard h p)"
    using valid_board(4)[OF v ob] by (simp add: humanSymbol_def absBoard_def t)
  show "o_isCompTurn ob = isCompTurn (absBoard h p)" by (simp add: absBoard_def t)
qed

lemma h_force_post:
  assumes IH: "\<And>k hk ob. valid hk \<Longrightarrow> boards hk k = Some ob \<Longrightarrow> depth (absBoard hk k) < n
                 \<Longrightarrow> \<exists>v h'. f k hk = Some (v, h') \<and> scored getScore k hk v h'"
    and v: "valid h" and ob: "boards h p = Some ob" and d: "depth (absBoard h p) \<le> n"
  shows "\<exists>v h1. h_forceGetScore f p h = Some (v, h1) \<and> scored forceGetScore p h v h1"
proof -
  let ?b = "absBoard h p"
  let ?cr = "o_cache (this h p)"
  let ?c = "the (caches h ?cr)"
  note fl = abs_fields[OF v ob]
  have w: "h_getWinner p h = getWinner ?b" by (simp add: h_getWinner_def)
  from h_getChildBoards_post[OF v ob] obtain kids h1 where
    gc: "h_getChildBoards p h = (kids, h1)" and v1: "valid h1" and pr1: "preserved h h1"
    and ca1: "caches h1 = caches h"
    and all: "list_all2 (isChild h p h1) kids (getChildBoards ?b)"
    by blast
  have len: "length kids = length (getChildBoards ?b)" using all by (rule list_all2_lengthD)
  have leaf: "scored forceGetScore p h v h1" if "forceGetScore ?b ?c = (v, ?c)" for v
    using that v1 pr1 ca1 by (simp add: scored_def)
  consider (comp) "getWinner ?b = compSymbol ?b"
    | (human) "getWinner ?b \<noteq> compSymbol ?b" "getWinner ?b = humanSymbol ?b"
    | (draw) "getWinner ?b \<noteq> compSymbol ?b" "getWinner ?b \<noteq> humanSymbol ?b" "getWinner ?b = ''D''"
    | (node) "getWinner ?b \<noteq> compSymbol ?b" "getWinner ?b \<noteq> humanSymbol ?b" "getWinner ?b \<noteq> ''D''"
    by blast
  then show ?thesis
  proof cases
    case comp
    have "h_forceGetScore f p h = Some (Num (100 - int (length kids)), h1)"
      using comp by (simp add: h_forceGetScore_def w fl gc)
    moreover have "forceGetScore ?b ?c = (Num (100 - int (length kids)), ?c)"
      using comp by (simp add: forceGetScore.simps[of ?b ?c] len)
    ultimately show ?thesis using leaf by blast
  next
    case human
    have "h_forceGetScore f p h = Some (Num (- 100 + int (length kids)), h1)"
      using human by (simp add: h_forceGetScore_def w fl gc)
    moreover have "forceGetScore ?b ?c = (Num (- 100 + int (length kids)), ?c)"
      using human by (simp add: forceGetScore.simps[of ?b ?c] len)
    ultimately show ?thesis using leaf by blast
  next
    case draw
    have "h_forceGetScore f p h = Some (Num (0 + int (length kids)), h1)"
      using draw by (simp add: h_forceGetScore_def w fl gc)
    moreover have "forceGetScore ?b ?c = (Num (0 + int (length kids)), ?c)"
      using draw by (simp add: forceGetScore.simps[of ?b ?c] len)
    ultimately show ?thesis using leaf by blast
  next
    case node
    have all2: "list_all2 (\<lambda>k c. isChild h p h1 k c \<and> depth c < n) kids (getChildBoards ?b)"
      unfolding list_all2_conv_all_nth
    proof (intro conjI allI impI)
      show "length kids = length (getChildBoards ?b)" by (rule len)
      fix i assume i: "i < length kids"
      show "isChild h p h1 (kids ! i) (getChildBoards ?b ! i)"
        using all i by (simp add: list_all2_conv_all_nth)
      have "getChildBoards ?b ! i \<in> set (getChildBoards ?b)" using i len by simp
      then show "depth (getChildBoards ?b ! i) < n" using depth_child d by fastforce
    qed
    have "\<exists>scores h'. mapStateOpt f kids h1 = Some (scores, h') \<and> valid h' \<and> preserved h1 h'
               \<and> (scores, the (caches h' ?cr))
                    = mapState getScore (getChildBoards ?b) (the (caches h1 ?cr))
               \<and> (\<forall>a. a \<noteq> ?cr \<longrightarrow> caches h' a = caches h1 a)"
    proof (rule mapStateOpt_scores[where f = f and n = n and h = h and p = p and hk = h1
            and ?h1.0 = h1])
      show "\<And>k hk ob. valid hk \<Longrightarrow> boards hk k = Some ob \<Longrightarrow> depth (absBoard hk k) < n
              \<Longrightarrow> \<exists>v h'. f k hk = Some (v, h') \<and> scored getScore k hk v h'"
        by (rule IH)
    qed (rule v1 all2 preserved_refl)+
    then obtain scores h2 where m: "mapStateOpt f kids h1 = Some (scores, h2)" and v2: "valid h2"
      and pr2: "preserved h1 h2"
      and ms: "(scores, the (caches h2 ?cr)) = mapState getScore (getChildBoards ?b) (the (caches h1 ?cr))"
      and oth: "\<forall>a. a \<noteq> ?cr \<longrightarrow> caches h2 a = caches h1 a"
      by blast
    let ?v = "if isCompTurn ?b then Math_max scores else Math_min scores"
    have hf: "h_forceGetScore f p h = Some (?v, h2)"
      using node by (simp add: h_forceGetScore_def w fl gc m)
    have pf: "forceGetScore ?b ?c = (?v, the (caches h2 ?cr))"
      using node ms[symmetric] by (simp add: forceGetScore.simps[of ?b ?c] ca1)
    have "scored forceGetScore p h ?v h2"
      unfolding scored_def using v2 preserved_trans[OF pr1 pr2] pf oth ca1 by simp
    then show ?thesis using hf by blast
  qed
qed

lemma valid_setCache:
  assumes "valid h" shows "valid (setCache p key score h)"
  using assms unfolding valid_def setCache_def by auto

lemma h_getScore_post:
  "valid h \<Longrightarrow> boards h p = Some ob \<Longrightarrow> depth (absBoard h p) < fuel
   \<Longrightarrow> \<exists>v h'. h_getScore fuel p h = Some (v, h') \<and> scored getScore p h v h'"
proof (induction fuel arbitrary: h p ob)
  case 0
  then show ?case by simp
next
  case (Suc fuel)
  note v = Suc.prems(1) and ob = Suc.prems(2)
  let ?b = "absBoard h p"
  let ?cr = "o_cache (this h p)"
  let ?c = "the (caches h ?cr)"
  let ?key = "stringState ?b"
  have t: "this h p = ob" using ob by (simp add: this_def)
  have co: "cacheOf h p = ?c" by (simp add: cacheOf_def)
  show ?case
  proof (cases "truthy (?c ?key)")
    case True
    have "h_getScore (Suc fuel) p h = Some (the (?c ?key), h)"
      using True by (simp add: co Let_def)
    moreover have "scored getScore p h (the (?c ?key)) h"
      using v getScore_hit[of ?c ?b] True by (simp add: scored_def preserved_refl)
    ultimately show ?thesis by blast
  next
    case False
    have d: "depth ?b \<le> fuel" using Suc.prems(3) by simp
    have "\<exists>s h1. h_forceGetScore (h_getScore fuel) p h = Some (s, h1)
            \<and> scored forceGetScore p h s h1"
    proof (rule h_force_post[where f = "h_getScore fuel" and n = fuel])
      show "\<And>k hk ob. valid hk \<Longrightarrow> boards hk k = Some ob \<Longrightarrow> depth (absBoard hk k) < fuel
              \<Longrightarrow> \<exists>v h'. h_getScore fuel k hk = Some (v, h') \<and> scored getScore k hk v h'"
        by (rule Suc.IH)
    qed (rule v ob d)+
    then obtain s h1 where hf: "h_forceGetScore (h_getScore fuel) p h = Some (s, h1)"
      and sc: "scored forceGetScore p h s h1" by blast
    from sc have v1: "valid h1" and pr1: "preserved h h1"
      and pf: "forceGetScore ?b ?c = (s, the (caches h1 ?cr))"
      and oth: "\<forall>a. a \<noteq> ?cr \<longrightarrow> caches h1 a = caches h a"
      by (simp_all add: scored_def)
    have t1: "this h1 p = ob" using preserved_this(2)[OF v pr1 ob] t by simp
    have crd: "?cr \<in> dom (caches h1)"
      using valid_board(3)[OF v ob] pr1 t by (simp add: preserved_def)
    let ?h2 = "setCache p ?key s h1"
    have hg: "h_getScore (Suc fuel) p h = Some (s, ?h2)"
      using False by (simp add: co Let_def hf)
    have c2: "caches ?h2 = (caches h1)(?cr \<mapsto> (the (caches h1 ?cr))(?key \<mapsto> s))"
      by (simp add: setCache_def cacheOf_def t1 t)
    have pr2: "preserved h ?h2"
      using pr1 crd unfolding preserved_def c2 by (auto simp: setCache_def)
    have "scored getScore p h s ?h2"
      unfolding scored_def
    proof (intro conjI)
      show "valid ?h2" by (rule valid_setCache[OF v1])
      show "preserved h ?h2" by (rule pr2)
      show "(s, the (caches ?h2 ?cr)) = getScore ?b ?c"
        using getScore_miss[of ?c ?b, OF False pf] by (simp add: c2)
      show "\<forall>a. a \<noteq> ?cr \<longrightarrow> caches ?h2 a = caches h a" using oth by (simp add: c2)
    qed
    then show ?thesis using hg by blast
  qed
qed

lemma h_sameScore_post:
  assumes v: "valid h" and ob: "boards h p = Some ob" and d: "depth (absBoard h p) < fuel"
    and v1: "valid h1" and ch: "isChild h p h1 k c" and dc: "depth c < fuel"
    and vk: "valid hk" and p0: "preserved h hk" and p1: "preserved h1 hk"
  shows "\<exists>found h'. h_sameScore fuel p k hk = Some (found, h') \<and> valid h' \<and> preserved hk h'
           \<and> (found, the (caches h' (o_cache (this h p))))
                = sameScore (absBoard h p) c (the (caches hk (o_cache (this h p))))
           \<and> (\<forall>a. a \<noteq> o_cache (this h p) \<longrightarrow> caches h' a = caches hk a)"
proof -
  let ?cr = "o_cache (this h p)"
  have ck: "isChild h p hk k c" using isChild_preserved[OF v1 p1 ch] .
  then obtain obk where obk: "boards hk k = Some obk" and abs: "absBoard hk k = c"
    and cr: "o_cache (this hk k) = ?cr"
    by (auto simp: isChild_def)
  have "depth (absBoard hk k) < fuel" using dc abs by simp
  from h_getScore_post[OF vk obk this] obtain s1 ha where
    g1: "h_getScore fuel k hk = Some (s1, ha)" and sc1: "scored getScore k hk s1 ha" by blast
  from sc1 have va: "valid ha" and pa: "preserved hk ha"
    and e1: "(s1, the (caches ha ?cr)) = getScore c (the (caches hk ?cr))"
    and o1: "\<forall>a. a \<noteq> ?cr \<longrightarrow> caches ha a = caches hk a"
    by (simp_all add: scored_def abs cr)
  have pha: "preserved h ha" using preserved_trans[OF p0 pa] .
  note pt = preserved_this[OF v pha ob]
  have "depth (absBoard ha p) < fuel" using d pt(4) by simp
  from h_getScore_post[OF va pt(1) this] obtain s2 hb where
    g2: "h_getScore fuel p ha = Some (s2, hb)" and sc2: "scored getScore p ha s2 hb" by blast
  from sc2 have vb: "valid hb" and pb: "preserved ha hb"
    and e2: "(s2, the (caches hb ?cr)) = getScore (absBoard h p) (the (caches ha ?cr))"
    and o2: "\<forall>a. a \<noteq> ?cr \<longrightarrow> caches hb a = caches ha a"
    by (simp_all add: scored_def pt)
  show ?thesis
  proof (intro exI[of _ "s1 = s2"] exI[of _ hb] conjI)
    show "h_sameScore fuel p k hk = Some (s1 = s2, hb)" by (simp add: h_sameScore_def g1 g2)
    show "valid hb" by (rule vb)
    show "preserved hk hb" by (rule preserved_trans[OF pa pb])
    show "(s1 = s2, the (caches hb ?cr)) = sameScore (absBoard h p) c (the (caches hk ?cr))"
      using e1[symmetric] e2[symmetric] by (simp add: sameScore_def)
    show "\<forall>a. a \<noteq> ?cr \<longrightarrow> caches hb a = caches hk a" using o1 o2 by simp
  qed
qed

lemma findStateOpt_post:
  assumes v: "valid h" and ob: "boards h p = Some ob" and d: "depth (absBoard h p) < fuel"
    and v1: "valid h1" and p01: "preserved h h1"
  shows "list_all2 (\<lambda>k c. isChild h p h1 k c \<and> depth c < fuel) kids cs
         \<Longrightarrow> valid hk \<Longrightarrow> preserved h1 hk
         \<Longrightarrow> \<exists>r h'. findStateOpt (h_sameScore fuel p) kids hk = Some (r, h')
               \<and> valid h' \<and> preserved hk h'
               \<and> (map_option (absBoard h1) r, the (caches h' (o_cache (this h p))))
                    = findState (sameScore (absBoard h p)) cs (the (caches hk (o_cache (this h p))))
               \<and> (\<forall>a. a \<noteq> o_cache (this h p) \<longrightarrow> caches h' a = caches hk a)
               \<and> (\<forall>k. r = Some k \<longrightarrow> k \<in> set kids)"
proof (induction kids cs arbitrary: hk rule: list_all2_induct)
  case Nil
  show ?case using Nil by (simp add: preserved_refl)
next
  case (Cons k kids c cs)
  let ?cr = "o_cache (this h p)"
  have ch: "isChild h p h1 k c" and dc: "depth c < fuel" using Cons.hyps(1) by auto
  have p0: "preserved h hk" using preserved_trans[OF p01 Cons.prems(2)] .
  from h_sameScore_post[OF v ob d v1 ch dc Cons.prems(1) p0 Cons.prems(2)]
  obtain found ha where s: "h_sameScore fuel p k hk = Some (found, ha)" and va: "valid ha"
    and pa: "preserved hk ha"
    and e: "(found, the (caches ha ?cr)) = sameScore (absBoard h p) c (the (caches hk ?cr))"
    and o: "\<forall>a. a \<noteq> ?cr \<longrightarrow> caches ha a = caches hk a"
    by blast
  show ?case
  proof (cases found)
    case True
    have abs: "absBoard h1 k = c" using ch by (simp add: isChild_def)
    show ?thesis
    proof (intro exI[of _ "Some k"] exI[of _ ha] conjI)
      show "findStateOpt (h_sameScore fuel p) (k # kids) hk = Some (Some k, ha)"
        using True by (simp add: s)
      show "(map_option (absBoard h1) (Some k), the (caches ha ?cr))
            = findState (sameScore (absBoard h p)) (c # cs) (the (caches hk ?cr))"
        using e[symmetric] True by (simp add: abs)
    qed (use va pa o in simp_all)
  next
    case False
    from Cons.IH[OF va preserved_trans[OF Cons.prems(2) pa]] obtain r hb where
      f: "findStateOpt (h_sameScore fuel p) kids ha = Some (r, hb)" and vb: "valid hb"
      and pb: "preserved ha hb"
      and e2: "(map_option (absBoard h1) r, the (caches hb ?cr))
                 = findState (sameScore (absBoard h p)) cs (the (caches ha ?cr))"
      and o2: "\<forall>a. a \<noteq> ?cr \<longrightarrow> caches hb a = caches ha a"
      and mem: "\<forall>k. r = Some k \<longrightarrow> k \<in> set kids"
      by blast
    show ?thesis
    proof (intro exI[of _ r] exI[of _ hb] conjI)
      show "findStateOpt (h_sameScore fuel p) (k # kids) hk = Some (r, hb)"
        using False by (simp add: s f)
      show "preserved hk hb" by (rule preserved_trans[OF pa pb])
      show "(map_option (absBoard h1) r, the (caches hb ?cr))
            = findState (sameScore (absBoard h p)) (c # cs) (the (caches hk ?cr))"
        using e[symmetric] e2[symmetric] False by simp
    qed (use vb o o2 mem in simp_all)
  qed
qed

lemma h_clone_post:
  assumes v: "valid h" and ob: "boards h p = Some ob" and cl: "h_clone p h = (q, h1)"
  shows "valid h1" "preserved h h1" "caches h1 = caches h" "isChild h p h1 q (absBoard h p)"
proof -
  obtain g where g: "grids h (o_state ob) = Some g" and size: "o_boardSize ob = length g"
    using valid_board(2)[OF v ob] by blast
  from h_clone_eq[OF v ob g] cl have q: "q = Suc (nxt h + length g)"
    and n: "nxt h1 = Suc (Suc (nxt h + length g))"
    and b: "boards h1 = (boards h)(q \<mapsto> ob\<lparr>o_state := nxt h + length g\<rparr>)"
    and gr: "grids h1 = (grids h)(nxt h + length g \<mapsto> [nxt h..<nxt h + length g])"
    and ca: "caches h1 = caches h"
    and r: "\<And>a. rowsOf h1 a = (if nxt h \<le> a \<and> a < nxt h + length g
                                   then Some (the (rowsOf h (g ! (a - nxt h))))
                                   else rowsOf h a)"
    by auto
  have dom_lt: "\<And>a. a \<in> dom (boards h) \<union> dom (grids h) \<union> dom (rowsOf h) \<Longrightarrow> a < nxt h"
    using v unfolding valid_def by blast
  have rows_old: "\<And>a. a < nxt h \<Longrightarrow> rowsOf h1 a = rowsOf h a" using r by simp
  have rows_dom: "\<And>a. a \<in> dom (rowsOf h1) \<Longrightarrow> a < nxt h1"
  proof -
    fix a assume a: "a \<in> dom (rowsOf h1)"
    show "a < nxt h1"
    proof (cases "a < nxt h + length g")
      case True then show ?thesis using n by simp
    next
      case False
      then have "rowsOf h1 a = rowsOf h a" using r by simp
      then have "a \<in> dom (rowsOf h)" using a by (simp add: dom_def)
      then show ?thesis using dom_lt[of a] n by simp
    qed
  qed
  have rows_sub: "\<And>a. a \<in> dom (rowsOf h) \<Longrightarrow> a \<in> dom (rowsOf h1)"
    using rows_old dom_lt by (auto simp: dom_def)
  show v1: "valid h1"
    unfolding valid_def
  proof (intro conjI allI impI)
    fix a assume "a \<in> dom (boards h1) \<union> dom (grids h1) \<union> dom (rowsOf h1)"
    then consider "a \<in> dom (boards h)" | "a = q" | "a \<in> dom (grids h)" | "a = nxt h + length g"
      | "a \<in> dom (rowsOf h1)"
      by (auto simp: b gr split: if_splits)
    then show "a < nxt h1"
      using dom_lt[of a] rows_dom[of a] n q by cases auto
  next
    fix p' ob' assume p': "boards h1 p' = Some ob'"
    show "\<exists>g'. grids h1 (o_state ob') = Some g' \<and> o_boardSize ob' = length g'"
    proof (cases "p' = q")
      case True
      then have "ob' = ob\<lparr>o_state := nxt h + length g\<rparr>" using p' b by simp
      then show ?thesis using size by (simp add: gr)
    next
      case False
      then have o: "boards h p' = Some ob'" using p' b by simp
      from valid_board(2)[OF v o] obtain g' where g': "grids h (o_state ob') = Some g'"
        "o_boardSize ob' = length g'" by blast
      have "o_state ob' < nxt h" using dom_lt[of "o_state ob'"] g' by (auto simp: dom_def)
      then show ?thesis using g' by (simp add: gr)
    qed
    show "o_cache ob' \<in> dom (caches h1)"
      using p' valid_board(3)[OF v ob] valid_board(3)[OF v, of p' ob'] b ca
      by (cases "p' = q") auto
    show "o_humanSymbol ob' = (if o_compSymbol ob' = ''X'' then ''O'' else ''X'')"
      using p' valid_board(4)[OF v ob] valid_board(4)[OF v, of p' ob'] b
      by (cases "p' = q") auto
  next
    fix g' rs assume g': "grids h1 g' = Some rs"
    show "set rs \<subseteq> dom (rowsOf h1)"
    proof
      fix x' assume x': "x' \<in> set rs"
      show "x' \<in> dom (rowsOf h1)"
      proof (cases "g' = nxt h + length g")
        case True
        then have "rs = [nxt h..<nxt h + length g]" using g' gr by simp
        then have "nxt h \<le> x'" "x' < nxt h + length g" using x' by auto
        then show ?thesis using r[of x'] by (auto simp: dom_def)
      next
        case False
        then have "grids h g' = Some rs" using g' gr by simp
        then have "x' \<in> dom (rowsOf h)" using valid_grid(2)[OF v] x' by blast
        then show ?thesis by (rule rows_sub)
      qed
    qed
  qed
  show "preserved h h1"
    unfolding preserved_def using n q b gr ca rows_old by auto
  show "caches h1 = caches h" by (rule ca)
  have t1: "this h1 q = ob\<lparr>o_state := nxt h + length g\<rparr>" by (simp add: this_def b)
  have t0: "this h p = ob" using ob by (simp add: this_def)
  have gp: "gridOf h p = map (\<lambda>r. the (rowsOf h r)) g" by (simp add: gridOf_def this_def ob g)
  have gq: "gridOf h1 q = map (\<lambda>r. the (rowsOf h1 r)) [nxt h..<nxt h + length g]"
    by (simp add: gridOf_def t1 gr del: upt_Suc)
  have grid: "gridOf h1 q = gridOf h p"
  proof (rule nth_equalityI)
    show "length (gridOf h1 q) = length (gridOf h p)" by (simp add: gp gq)
    fix i assume "i < length (gridOf h1 q)"
    then have i: "i < length g" by (simp add: gq)
    show "gridOf h1 q ! i = gridOf h p ! i"
      using i r[of "nxt h + i"] by (simp add: gp gq del: upt_Suc)
  qed
  show "isChild h p h1 q (absBoard h p)"
    unfolding isChild_def
  proof (intro conjI)
    show "nxt h \<le> q" using q by simp
    show "q \<in> dom (boards h1)" by (simp add: b)
    show "absBoard h1 q = absBoard h p" by (simp add: absBoard_def grid t1 t0)
    show "o_cache (this h1 q) = o_cache (this h p)" by (simp add: t1 t0)
    show "nxt h \<le> o_state (this h1 q)" by (simp add: t1)
    show "\<exists>rs. grids h1 (o_state (this h1 q)) = Some rs \<and> distinct rs \<and> (\<forall>r \<in> set rs. nxt h \<le> r)"
      by (simp add: t1 gr del: upt_Suc)
  qed
qed

lemma setCell_fresh:
  assumes v: "valid h" and v': "valid h'" and pr: "preserved h h'" and ch: "isChild h p h' k c"
    and y: "y < o_boardSize (this h' k)"
  shows "preserved h (setCell k y x mark h')"
proof -
  from ch obtain obk rs where obk: "boards h' k = Some obk"
    and rs: "grids h' (o_state (this h' k)) = Some rs" and fresh: "\<forall>r \<in> set rs. nxt h \<le> r"
    by (auto simp: isChild_def)
  have t: "this h' k = obk" using obk by (simp add: this_def)
  have "o_boardSize obk = length rs" using valid_board(2)[OF v' obk] rs t by simp
  then have "rs ! y \<in> set rs" using y t by simp
  then have f: "nxt h \<le> rs ! y" using fresh by blast
  have "setCell k y x mark h' = h'\<lparr>rowsOf := (rowsOf h')(rs ! y \<mapsto> (the (rowsOf h' (rs ! y)))[x := mark])\<rparr>"
    by (simp add: setCell_def Let_def rs)
  then show ?thesis using pr f by (auto simp: preserved_def)
qed

lemma h_getNextBestBoardState_post:
  assumes v: "valid h" and ob: "boards h p = Some ob" and d: "depth (absBoard h p) < fuel"
  shows "\<exists>r h'. h_getNextBestBoardState fuel p h = Some (r, h') \<and> valid h' \<and> preserved h h'
           \<and> (map_option (absBoard h') r, the (caches h' (o_cache (this h p))))
                = getNextBestBoardState (absBoard h p) (the (caches h (o_cache (this h p))))
           \<and> (\<forall>a. a \<noteq> o_cache (this h p) \<longrightarrow> caches h' a = caches h a)"
proof -
  let ?b = "absBoard h p"
  let ?cr = "o_cache (this h p)"
  let ?c = "the (caches h ?cr)"
  note fl = abs_fields[OF v ob]
  have w: "h_getWinner p h = getWinner ?b" by (simp add: h_getWinner_def)
  show ?thesis
  proof (cases "isCompTurn ?b \<and> getWinner ?b = ''L''")
    case False
    then have "h_getNextBestBoardState fuel p h = Some (None, h)"
      "getNextBestBoardState ?b ?c = (None, ?c)"
      by (auto simp: h_getNextBestBoardState_def getNextBestBoardState_def w fl)
    then show ?thesis using v by (simp add: preserved_refl)
  next
    case True
    from h_getChildBoards_post[OF v ob] obtain kids h1 where
      gc: "h_getChildBoards p h = (kids, h1)" and v1: "valid h1" and pr1: "preserved h h1"
      and ca1: "caches h1 = caches h"
      and all: "list_all2 (isChild h p h1) kids (getChildBoards ?b)"
      by blast
    have len: "length kids = length (getChildBoards ?b)" using all by (rule list_all2_lengthD)
    have all2: "list_all2 (\<lambda>k c. isChild h p h1 k c \<and> depth c < fuel) kids (getChildBoards ?b)"
      unfolding list_all2_conv_all_nth
    proof (intro conjI allI impI)
      show "length kids = length (getChildBoards ?b)" by (rule len)
      fix i assume i: "i < length kids"
      show "isChild h p h1 (kids ! i) (getChildBoards ?b ! i)"
        using all i by (simp add: list_all2_conv_all_nth)
      have "getChildBoards ?b ! i \<in> set (getChildBoards ?b)" using i len by simp
      then show "depth (getChildBoards ?b ! i) < fuel" using depth_child d by fastforce
    qed
    from findStateOpt_post[OF v ob d v1 pr1 all2 v1 preserved_refl] obtain r h' where
      f: "findStateOpt (h_sameScore fuel p) kids h1 = Some (r, h')" and v': "valid h'"
      and pr': "preserved h1 h'"
      and e: "(map_option (absBoard h1) r, the (caches h' ?cr))
                = findState (sameScore ?b) (getChildBoards ?b) (the (caches h1 ?cr))"
      and o: "\<forall>a. a \<noteq> ?cr \<longrightarrow> caches h' a = caches h1 a"
      and mem: "\<forall>k. r = Some k \<longrightarrow> k \<in> set kids"
      by blast
    have abs: "map_option (absBoard h') r = map_option (absBoard h1) r"
    proof (cases r)
      case None then show ?thesis by simp
    next
      case (Some k)
      then have "k \<in> set kids" using mem by simp
      then obtain c where "isChild h p h1 k c"
        using all by (auto simp: list_all2_conv_all_nth in_set_conv_nth)
      then obtain obk where "boards h1 k = Some obk" by (auto simp: isChild_def)
      from preserved_this(4)[OF v1 pr' this] show ?thesis by (simp add: Some)
    qed
    have hn: "h_getNextBestBoardState fuel p h = Some (r, h')"
      using True by (simp add: h_getNextBestBoardState_def w fl gc f)
    have pn: "getNextBestBoardState ?b ?c = (map_option (absBoard h') r, the (caches h' ?cr))"
      using True e[symmetric] by (simp add: getNextBestBoardState_def abs ca1)
    show ?thesis
      using hn v' preserved_trans[OF pr1 pr'] pn o ca1 by simp
  qed
qed


lemma valid_heap0: "valid heap0"
  by (auto simp: valid_def heap0_def split: if_splits)

lemma absBoard_heap0: "absBoard heap0 4 = b4"
  by (simp add: absBoard_def gridOf_def this_def heap0_def b4_def)

lemma depth_b4: "depth b4 = 5"
proof -
  have "length (getChildBoards b4) = 5" by code_simp
  moreover have "compSymbol b4 \<noteq> ''E''" by (simp add: b4_def)
  ultimately show ?thesis by (simp add: depth_def emptyCount_def)
qed


text \<open>
  Claim C9. No query changes the board it is called on. On a well-formed store, for a board
  \<open>p\<close>: \<^verbatim>\<open>getWinner\<close> only reads; \<^verbatim>\<open>clone\<close> and \<^verbatim>\<open>getChildBoards\<close> leave every object of the
  store as it was, the caches included, and each board they return is a deep copy (its array
  of rows and its rows are new) that holds the same cache reference as \<open>p\<close>, so that a later
  write into a square of such a board leaves the grid of \<open>p\<close> unchanged; \<^verbatim>\<open>getScore\<close> and
  \<^verbatim>\<open>getNextBestBoardState\<close>, given fuel above the depth of the search, return, leave the
  fields and the grid of \<open>p\<close> (and of every other board) unchanged and write nothing but the
  cache of \<open>p\<close>. Their results are those of the functions on values.
\<close>

theorem queries_preserve_position:
  assumes v: "valid h" and ob: "boards h p = Some ob"
  shows "h_getWinner p h = getWinner (absBoard h p)
    \<and> (\<forall>q h'. h_clone p h = (q, h') \<longrightarrow>
          preserved h h' \<and> caches h' = caches h \<and> this h' p = this h p
          \<and> absBoard h' p = absBoard h p \<and> isChild h p h' q (absBoard h p)
          \<and> (\<forall>y<o_boardSize (this h' q). \<forall>x m. absBoard (setCell q y x m h') p = absBoard h p))
    \<and> (\<forall>kids h'. h_getChildBoards p h = (kids, h') \<longrightarrow>
          preserved h h' \<and> caches h' = caches h \<and> this h' p = this h p
          \<and> absBoard h' p = absBoard h p
          \<and> list_all2 (isChild h p h') kids (getChildBoards (absBoard h p))
          \<and> (\<forall>k \<in> set kids. \<forall>y<o_boardSize (this h' k). \<forall>x m.
                absBoard (setCell k y x m h') p = absBoard h p))
    \<and> (\<forall>fuel. depth (absBoard h p) < fuel \<longrightarrow>
          (\<exists>s h'. h_getScore fuel p h = Some (s, h') \<and> preserved h h' \<and> this h' p = this h p
             \<and> absBoard h' p = absBoard h p
             \<and> (s, cacheOf h' p) = getScore (absBoard h p) (cacheOf h p)
             \<and> dom (cacheOf h p) \<subseteq> dom (cacheOf h' p)
             \<and> (\<forall>a. a \<noteq> o_cache ob \<longrightarrow> caches h' a = caches h a)))
    \<and> (\<forall>fuel. depth (absBoard h p) < fuel \<longrightarrow>
          (\<exists>r h'. h_getNextBestBoardState fuel p h = Some (r, h') \<and> preserved h h'
             \<and> this h' p = this h p \<and> absBoard h' p = absBoard h p
             \<and> (map_option (absBoard h') r, cacheOf h' p)
                  = getNextBestBoardState (absBoard h p) (cacheOf h p)
             \<and> dom (cacheOf h p) \<subseteq> dom (cacheOf h' p)
             \<and> (\<forall>a. a \<noteq> o_cache ob \<longrightarrow> caches h' a = caches h a)))"
proof -
  have t: "this h p = ob" using ob by (simp add: this_def)
  have c1: "h_getWinner p h = getWinner (absBoard h p)" by (simp add: h_getWinner_def)
  have c2: "\<forall>q h'. h_clone p h = (q, h') \<longrightarrow>
          preserved h h' \<and> caches h' = caches h \<and> this h' p = this h p
          \<and> absBoard h' p = absBoard h p \<and> isChild h p h' q (absBoard h p)
          \<and> (\<forall>y<o_boardSize (this h' q). \<forall>x m. absBoard (setCell q y x m h') p = absBoard h p)"
  proof (intro allI impI)
    fix q h' assume cl: "h_clone p h = (q, h')"
    note c = h_clone_post[OF v ob cl]
    note pt = preserved_this[OF v c(2) ob]
    have "\<forall>y<o_boardSize (this h' q). \<forall>x m. absBoard (setCell q y x m h') p = absBoard h p"
    proof (intro allI impI)
      fix y x m assume y: "y < o_boardSize (this h' q)"
      have "preserved h (setCell q y x m h')" by (rule setCell_fresh[OF v c(1,2,4) y])
      from preserved_this(4)[OF v this ob]
      show "absBoard (setCell q y x m h') p = absBoard h p" .
    qed
    then show "preserved h h' \<and> caches h' = caches h \<and> this h' p = this h p
          \<and> absBoard h' p = absBoard h p \<and> isChild h p h' q (absBoard h p)
          \<and> (\<forall>y<o_boardSize (this h' q). \<forall>x m. absBoard (setCell q y x m h') p = absBoard h p)"
      using c pt by blast
  qed
  have c3: "\<forall>kids h'. h_getChildBoards p h = (kids, h') \<longrightarrow>
          preserved h h' \<and> caches h' = caches h \<and> this h' p = this h p
          \<and> absBoard h' p = absBoard h p
          \<and> list_all2 (isChild h p h') kids (getChildBoards (absBoard h p))
          \<and> (\<forall>k \<in> set kids. \<forall>y<o_boardSize (this h' k). \<forall>x m.
                absBoard (setCell k y x m h') p = absBoard h p)"
  proof (intro allI impI)
    fix kids h' assume gc: "h_getChildBoards p h = (kids, h')"
    from h_getChildBoards_post[OF v ob] gc have v': "valid h'" and pr: "preserved h h'"
      and ca: "caches h' = caches h"
      and all: "list_all2 (isChild h p h') kids (getChildBoards (absBoard h p))"
      by auto
    note pt = preserved_this[OF v pr ob]
    have "\<forall>k \<in> set kids. \<forall>y<o_boardSize (this h' k). \<forall>x m.
                absBoard (setCell k y x m h') p = absBoard h p"
    proof (intro ballI allI impI)
      fix k y x m assume k: "k \<in> set kids" and y: "y < o_boardSize (this h' k)"
      from k all obtain c where "isChild h p h' k c"
        by (auto simp: list_all2_conv_all_nth in_set_conv_nth)
      then have "preserved h (setCell k y x m h')" using setCell_fresh[OF v v' pr _ y] by blast
      from preserved_this(4)[OF v this ob]
      show "absBoard (setCell k y x m h') p = absBoard h p" .
    qed
    then show "preserved h h' \<and> caches h' = caches h \<and> this h' p = this h p
          \<and> absBoard h' p = absBoard h p
          \<and> list_all2 (isChild h p h') kids (getChildBoards (absBoard h p))
          \<and> (\<forall>k \<in> set kids. \<forall>y<o_boardSize (this h' k). \<forall>x m.
                absBoard (setCell k y x m h') p = absBoard h p)"
      using pr ca all pt by blast
  qed
  have c4: "\<forall>fuel. depth (absBoard h p) < fuel \<longrightarrow>
          (\<exists>s h'. h_getScore fuel p h = Some (s, h') \<and> preserved h h' \<and> this h' p = this h p
             \<and> absBoard h' p = absBoard h p
             \<and> (s, cacheOf h' p) = getScore (absBoard h p) (cacheOf h p)
             \<and> dom (cacheOf h p) \<subseteq> dom (cacheOf h' p)
             \<and> (\<forall>a. a \<noteq> o_cache ob \<longrightarrow> caches h' a = caches h a))"
  proof (intro allI impI)
    fix fuel assume d: "depth (absBoard h p) < fuel"
    from h_getScore_post[OF v ob d] obtain s h' where
      g: "h_getScore fuel p h = Some (s, h')" and sc: "scored getScore p h s h'" by blast
    from sc have pr: "preserved h h'" by (simp add: scored_def)
    note pt = preserved_this[OF v pr ob]
    have e: "(s, cacheOf h' p) = getScore (absBoard h p) (cacheOf h p)"
      using sc by (simp add: scored_def cacheOf_def pt)
    have "dom (cacheOf h p) \<subseteq> dom (cacheOf h' p)"
      using cache_grows(1)[of "cacheOf h p" "absBoard h p"] e[symmetric] by simp
    note e this
    moreover have "\<forall>a. a \<noteq> o_cache ob \<longrightarrow> caches h' a = caches h a"
      using sc by (simp add: scored_def t)
    ultimately show "\<exists>s h'. h_getScore fuel p h = Some (s, h') \<and> preserved h h'
             \<and> this h' p = this h p \<and> absBoard h' p = absBoard h p
             \<and> (s, cacheOf h' p) = getScore (absBoard h p) (cacheOf h p)
             \<and> dom (cacheOf h p) \<subseteq> dom (cacheOf h' p)
             \<and> (\<forall>a. a \<noteq> o_cache ob \<longrightarrow> caches h' a = caches h a)"
      using g pr pt by blast
  qed
  have c5: "\<forall>fuel. depth (absBoard h p) < fuel \<longrightarrow>
          (\<exists>r h'. h_getNextBestBoardState fuel p h = Some (r, h') \<and> preserved h h'
             \<and> this h' p = this h p \<and> absBoard h' p = absBoard h p
             \<and> (map_option (absBoard h') r, cacheOf h' p)
                  = getNextBestBoardState (absBoard h p) (cacheOf h p)
             \<and> dom (cacheOf h p) \<subseteq> dom (cacheOf h' p)
             \<and> (\<forall>a. a \<noteq> o_cache ob \<longrightarrow> caches h' a = caches h a))"
  proof (intro allI impI)
    fix fuel assume d: "depth (absBoard h p) < fuel"
    from h_getNextBestBoardState_post[OF v ob d] obtain r h' where
      g: "h_getNextBestBoardState fuel p h = Some (r, h')" and pr: "preserved h h'"
      and e: "(map_option (absBoard h') r, the (caches h' (o_cache (this h p))))
                = getNextBestBoardState (absBoard h p) (the (caches h (o_cache (this h p))))"
      and o: "\<forall>a. a \<noteq> o_cache (this h p) \<longrightarrow> caches h' a = caches h a"
      by blast
    note pt = preserved_this[OF v pr ob]
    have e': "(map_option (absBoard h') r, cacheOf h' p)
            = getNextBestBoardState (absBoard h p) (cacheOf h p)"
      using e by (simp add: cacheOf_def pt)
    have "dom (cacheOf h p) \<subseteq> dom (cacheOf h' p)"
      using getNextBestBoardState_grows[of "cacheOf h p" "absBoard h p"] e'[symmetric] by simp
    note e' this
    moreover have "\<forall>a. a \<noteq> o_cache ob \<longrightarrow> caches h' a = caches h a" using o by (simp add: t)
    ultimately show "\<exists>r h'. h_getNextBestBoardState fuel p h = Some (r, h') \<and> preserved h h'
             \<and> this h' p = this h p \<and> absBoard h' p = absBoard h p
             \<and> (map_option (absBoard h') r, cacheOf h' p)
                  = getNextBestBoardState (absBoard h p) (cacheOf h p)
             \<and> dom (cacheOf h p) \<subseteq> dom (cacheOf h' p)
             \<and> (\<forall>a. a \<noteq> o_cache ob \<longrightarrow> caches h' a = caches h a)"
      using g pr pt by blast
  qed
  show ?thesis using c1 c2 c3 c4 c5 by (intro conjI)
qed

theorem queries_preserve_position_witness:
  "valid heap0 \<and> boards heap0 4 \<noteq> None \<and> depth (absBoard heap0 4) < 6
   \<and> (\<exists>s h'. h_getScore 6 4 heap0 = Some (s, h') \<and> preserved heap0 h'
         \<and> this h' 4 = this heap0 4 \<and> absBoard h' 4 = b4
         \<and> (s, cacheOf h' 4) = getScore b4 Map.empty)
   \<and> (\<exists>kids h'. h_getChildBoards 4 heap0 = (kids, h') \<and> preserved heap0 h'
         \<and> absBoard h' 4 = b4 \<and> list_all2 (isChild heap0 4 h') kids (getChildBoards b4))"
proof -
  obtain ob where ob: "boards heap0 4 = Some ob" by (simp add: heap0_def)
  have d: "depth (absBoard heap0 4) < 6" by (simp add: absBoard_heap0 depth_b4)
  have c0: "cacheOf heap0 4 = Map.empty" by (simp add: cacheOf_def this_def heap0_def)
  note q = queries_preserve_position[OF valid_heap0 ob]
  from q[THEN conjunct2, THEN conjunct2, THEN conjunct2, THEN conjunct1, rule_format, OF d]
  obtain s h' where "h_getScore 6 4 heap0 = Some (s, h')" "preserved heap0 h'"
    "this h' 4 = this heap0 4" "absBoard h' 4 = absBoard heap0 4"
    "(s, cacheOf h' 4) = getScore (absBoard heap0 4) (cacheOf heap0 4)"
    by blast
  then have "\<exists>s h'. h_getScore 6 4 heap0 = Some (s, h') \<and> preserved heap0 h'
         \<and> this h' 4 = this heap0 4 \<and> absBoard h' 4 = absBoard heap0 4
         \<and> (s, cacheOf h' 4) = getScore (absBoard heap0 4) (cacheOf heap0 4)"
    by blast
  then have 1: "\<exists>s h'. h_getScore 6 4 heap0 = Some (s, h') \<and> preserved heap0 h'
         \<and> this h' 4 = this heap0 4 \<and> absBoard h' 4 = b4
         \<and> (s, cacheOf h' 4) = getScore b4 Map.empty"
    by (simp add: absBoard_heap0 c0)
  obtain kids h' where k: "h_getChildBoards 4 heap0 = (kids, h')"
    by (cases "h_getChildBoards 4 heap0")
  from q[THEN conjunct2, THEN conjunct2, THEN conjunct1, rule_format, OF k]
  have "preserved heap0 h' \<and> absBoard h' 4 = absBoard heap0 4
      \<and> list_all2 (isChild heap0 4 h') kids (getChildBoards (absBoard heap0 4))"
    by blast
  then have 2: "\<exists>kids h'. h_getChildBoards 4 heap0 = (kids, h') \<and> preserved heap0 h'
         \<and> absBoard h' 4 = b4 \<and> list_all2 (isChild heap0 4 h') kids (getChildBoards b4)"
    using k by (simp add: absBoard_heap0)
  show ?thesis using valid_heap0 ob d 1 2 by simp
qed

end
